theory Spec2Isabelle
  imports Complex_Main "HOL-Library.AList" "HOL-Library.Multiset"
begin

section \<open>Values of type double\<close>

text \<open>
  The bounds of a node are C++ doubles (IEEE 754 binary64). A double is modelled as a
  not-a-number, one of the two infinities, or a finite value, which is a real number.
  The comparisons follow IEEE 754: every comparison with a NaN is false. The result of
  an arithmetic operation on finite values is the exact result rounded to the nearest
  double, ties to the even significand, and an infinity when the rounded result is out
  of range (round_double). The doubles among the finite values are the reals that
  round_double leaves as they are. The sign of zero is outside the model: no operation
  of the source tells the two zeros apart.
\<close>

datatype double = NaN | NegInf | Fin real | PosInf

text \<open>std::numeric_limits<double>::infinity()\<close>

definition BPNode_INF :: double where
  "BPNode_INF = PosInf"

text \<open>a == b\<close>

fun d_eq :: "double \<Rightarrow> double \<Rightarrow> bool" where
  "d_eq NaN b = False"
| "d_eq a NaN = False"
| "d_eq a b = (a = b)"

text \<open>a < b\<close>

fun d_lt :: "double \<Rightarrow> double \<Rightarrow> bool" where
  "d_lt NaN b = False"
| "d_lt a NaN = False"
| "d_lt a NegInf = False"
| "d_lt PosInf b = False"
| "d_lt NegInf b = True"
| "d_lt (Fin x) PosInf = True"
| "d_lt (Fin x) (Fin y) = (x < y)"

text \<open>a <= b\<close>

fun d_le :: "double \<Rightarrow> double \<Rightarrow> bool" where
  "d_le NaN b = False"
| "d_le a NaN = False"
| "d_le NegInf b = True"
| "d_le a PosInf = True"
| "d_le a NegInf = False"
| "d_le PosInf b = False"
| "d_le (Fin x) (Fin y) = (x \<le> y)"

text \<open>a > b and a >= b\<close>

definition d_gt :: "double \<Rightarrow> double \<Rightarrow> bool" where
  "d_gt a b = d_lt b a"

definition d_ge :: "double \<Rightarrow> double \<Rightarrow> bool" where
  "d_ge a b = d_le b a"

text \<open>-a\<close>

fun d_neg :: "double \<Rightarrow> double" where
  "d_neg NaN = NaN"
| "d_neg NegInf = PosInf"
| "d_neg PosInf = NegInf"
| "d_neg (Fin x) = Fin (- x)"

text \<open>
  Rounding to the nearest integer, ties to the even one; the binade k of a positive y,
  that is 2^k <= y < 2^(k+1), found in at most n steps; and the powers of two.
\<close>

definition round_even :: "real \<Rightarrow> int" where
  "round_even y =
     (if y - of_int \<lfloor>y\<rfloor> < 1 / 2 then \<lfloor>y\<rfloor>
      else if 1 / 2 < y - of_int \<lfloor>y\<rfloor> then \<lfloor>y\<rfloor> + 1
      else if even \<lfloor>y\<rfloor> then \<lfloor>y\<rfloor> else \<lfloor>y\<rfloor> + 1)"

primrec binade :: "nat \<Rightarrow> real \<Rightarrow> int" where
  "binade 0 y = 0"
| "binade (Suc n) y =
     (if 2 \<le> y then binade n (y / 2) + 1
      else if y < 1 then binade n (y * 2) - 1
      else 0)"

definition pow2 :: "int \<Rightarrow> real" where
  "pow2 e = (if 0 \<le> e then 2 ^ nat e else 1 / 2 ^ nat (- e))"

text \<open>
  The double that an exact result x is rounded to. A double has a significand of 53 bits
  and an exponent from -1022 to 1023: x is rounded to a multiple of 2^(k-52), where k is
  the binade of |x| and at least -1022 (below it the doubles are subnormal and lie
  2^-1074 apart), and the result is an infinity when it reaches 2^1024. The binade of a
  value between 2^-1022 and 2^1024 is found in less than 2048 steps.
\<close>

definition round_double :: "real \<Rightarrow> double" where
  "round_double x =
     (if x = 0 then Fin 0
      else if 2 ^ 1024 \<le> \<bar>x\<bar> then (if 0 < x then PosInf else NegInf)
      else
        (let k = (if \<bar>x\<bar> < pow2 (- 1022) then - 1022 else binade 2048 \<bar>x\<bar>);
             v = real_of_int (round_even (\<bar>x\<bar> / pow2 (k - 52))) * pow2 (k - 52)
         in if 2 ^ 1024 \<le> v then (if 0 < x then PosInf else NegInf)
            else Fin (if 0 < x then v else - v)))"

text \<open>a - b\<close>

fun d_sub :: "double \<Rightarrow> double \<Rightarrow> double" where
  "d_sub NaN b = NaN"
| "d_sub a NaN = NaN"
| "d_sub PosInf PosInf = NaN"
| "d_sub NegInf NegInf = NaN"
| "d_sub PosInf b = PosInf"
| "d_sub NegInf b = NegInf"
| "d_sub (Fin x) PosInf = NegInf"
| "d_sub (Fin x) NegInf = PosInf"
| "d_sub (Fin x) (Fin y) = round_double (x - y)"

text \<open>a / b, the zero of a finite divisor being the positive zero\<close>

fun d_div :: "double \<Rightarrow> double \<Rightarrow> double" where
  "d_div NaN b = NaN"
| "d_div a NaN = NaN"
| "d_div (Fin x) (Fin y) =
     (if y \<noteq> 0 then round_double (x / y)
      else if x = 0 then NaN
      else if 0 < x then PosInf else NegInf)"
| "d_div (Fin x) b = Fin 0"
| "d_div a (Fin y) = (if 0 \<le> y then a else d_neg a)"
| "d_div a b = NaN"

text \<open>std::abs(a)\<close>

fun d_abs :: "double \<Rightarrow> double" where
  "d_abs NaN = NaN"
| "d_abs NegInf = PosInf"
| "d_abs PosInf = PosInf"
| "d_abs (Fin x) = Fin \<bar>x\<bar>"

text \<open>std::min(a, b), which is (b < a) ? b : a\<close>

definition d_min :: "double \<Rightarrow> double \<Rightarrow> double" where
  "d_min a b = (if d_lt b a then b else a)"

section \<open>node.hpp\<close>

datatype NodeStatus =
  PENDING | PROCESSING | BRANCHED | PRUNED_BOUND | PRUNED_INFEASIBLE | INTEGER | FATHOMED

datatype BranchType = VARIABLE | RYAN_FOSTER | ARC | RESOURCE | CUSTOM

text \<open>
  struct BranchingDecision. The indices are int32_t in the source; no arithmetic is done
  on them, and they are integers here.
\<close>

record BranchingDecision =
  branch_type :: BranchType
  variable_index :: int
  bound_value :: double
  is_upper_bound :: bool
  item_i :: int
  item_j :: int
  same_column :: bool
  arc_index :: int
  source_node :: int
  arc_required :: bool
  resource_index :: int
  lower_bound :: double
  upper_bound :: double
  custom_int_data :: "int list"
  custom_float_data :: "double list"

text \<open>
  The member initialisers of the struct. The source leaves the member type without an
  initialiser; every factory sets it, and so the type is the argument here.
\<close>

definition BranchingDecision_init :: "BranchType \<Rightarrow> BranchingDecision" where
  "BranchingDecision_init ty =
     \<lparr> branch_type = ty, variable_index = - 1, bound_value = Fin 0, is_upper_bound = False,
       item_i = - 1, item_j = - 1, same_column = False,
       arc_index = - 1, source_node = - 1, arc_required = False,
       resource_index = - 1, lower_bound = Fin 0, upper_bound = PosInf,
       custom_int_data = [], custom_float_data = [] \<rparr>"

definition variable_branch :: "int \<Rightarrow> double \<Rightarrow> bool \<Rightarrow> BranchingDecision" where
  "variable_branch var_idx val upper =
     (BranchingDecision_init VARIABLE)
       \<lparr> variable_index := var_idx, bound_value := val, is_upper_bound := upper \<rparr>"

definition ryan_foster :: "int \<Rightarrow> int \<Rightarrow> bool \<Rightarrow> BranchingDecision" where
  "ryan_foster i j same =
     (BranchingDecision_init RYAN_FOSTER) \<lparr> item_i := i, item_j := j, same_column := same \<rparr>"

definition arc_branch :: "int \<Rightarrow> int \<Rightarrow> bool \<Rightarrow> BranchingDecision" where
  "arc_branch arc source required =
     (BranchingDecision_init ARC)
       \<lparr> arc_index := arc, source_node := source, arc_required := required \<rparr>"

definition resource_branch :: "int \<Rightarrow> double \<Rightarrow> double \<Rightarrow> BranchingDecision" where
  "resource_branch res_idx lb ub =
     (BranchingDecision_init RESOURCE)
       \<lparr> resource_index := res_idx, lower_bound := lb, upper_bound := ub \<rparr>"

text \<open>
  class BPNode. NodeId is int64_t and the depth int32_t; the tree only ever adds one to
  them, and they are integers here. A member \<^verbatim>\<open>x_\<close> of the source is the field
  \<^verbatim>\<open>x_'\<close> of the record (a name cannot end with an underscore).
\<close>

type_synonym NodeId = int

definition INVALID_ID :: NodeId where
  "INVALID_ID = - 1"

record BPNode =
  id_' :: NodeId
  parent_id_' :: NodeId
  depth_' :: int
  lower_bound_' :: double
  upper_bound_' :: double
  lp_value_' :: double
  status_' :: NodeStatus
  is_integer_' :: bool
  inherited_decisions_' :: "BranchingDecision list"
  local_decisions_' :: "BranchingDecision list"
  children_' :: "NodeId list"
  solution_' :: "double list"
  solution_columns_' :: "int list"

text \<open>BPNode(): the root node.\<close>

definition BPNode_root :: BPNode where
  "BPNode_root =
     \<lparr> id_' = 0, parent_id_' = INVALID_ID, depth_' = 0,
       lower_bound_' = d_neg BPNode_INF, upper_bound_' = BPNode_INF, lp_value_' = BPNode_INF,
       status_' = PENDING, is_integer_' = False,
       inherited_decisions_' = [], local_decisions_' = [], children_' = [],
       solution_' = [], solution_columns_' = [] \<rparr>"

text \<open>BPNode(id, parent_id, depth, decision): a child node.\<close>

definition BPNode_child :: "NodeId \<Rightarrow> NodeId \<Rightarrow> int \<Rightarrow> BranchingDecision \<Rightarrow> BPNode" where
  "BPNode_child i parent d decision =
     \<lparr> id_' = i, parent_id_' = parent, depth_' = d,
       lower_bound_' = d_neg BPNode_INF, upper_bound_' = BPNode_INF, lp_value_' = BPNode_INF,
       status_' = PENDING, is_integer_' = False,
       inherited_decisions_' = [], local_decisions_' = [] @ [decision], children_' = [],
       solution_' = [], solution_columns_' = [] \<rparr>"

definition gap :: "BPNode \<Rightarrow> double" where
  "gap n =
     (if d_eq (upper_bound_' n) BPNode_INF \<or> d_eq (lower_bound_' n) (d_neg BPNode_INF) then BPNode_INF
      else if d_eq (upper_bound_' n) (Fin 0)
        then (if d_eq (lower_bound_' n) (Fin 0) then Fin 0 else BPNode_INF)
      else d_div (d_sub (upper_bound_' n) (lower_bound_' n)) (d_abs (upper_bound_' n)))"

definition is_processed :: "BPNode \<Rightarrow> bool" where
  "is_processed n = (status_' n \<noteq> PENDING \<and> status_' n \<noteq> PROCESSING)"

definition is_pruned :: "BPNode \<Rightarrow> bool" where
  "is_pruned n =
     (status_' n = PRUNED_BOUND \<or> status_' n = PRUNED_INFEASIBLE \<or> status_' n = FATHOMED)"

definition can_be_explored :: "BPNode \<Rightarrow> bool" where
  "can_be_explored n = (status_' n = PENDING)"

definition all_decisions :: "BPNode \<Rightarrow> BranchingDecision list" where
  "all_decisions n = inherited_decisions_' n @ local_decisions_' n"

definition num_decisions :: "BPNode \<Rightarrow> nat" where
  "num_decisions n = length (inherited_decisions_' n) + length (local_decisions_' n)"

definition has_children :: "BPNode \<Rightarrow> bool" where
  "has_children n = (children_' n \<noteq> [])"

definition set_id :: "BPNode \<Rightarrow> NodeId \<Rightarrow> BPNode" where
  "set_id n i = n\<lparr>id_' := i\<rparr>"

definition set_lower_bound :: "BPNode \<Rightarrow> double \<Rightarrow> BPNode" where
  "set_lower_bound n lb = n\<lparr>lower_bound_' := lb\<rparr>"

definition set_upper_bound :: "BPNode \<Rightarrow> double \<Rightarrow> BPNode" where
  "set_upper_bound n ub = n\<lparr>upper_bound_' := ub\<rparr>"

definition set_lp_value :: "BPNode \<Rightarrow> double \<Rightarrow> BPNode" where
  "set_lp_value n v = n\<lparr>lp_value_' := v\<rparr>"

definition set_status :: "BPNode \<Rightarrow> NodeStatus \<Rightarrow> BPNode" where
  "set_status n s = n\<lparr>status_' := s\<rparr>"

definition set_is_integer :: "BPNode \<Rightarrow> bool \<Rightarrow> BPNode" where
  "set_is_integer n b = n\<lparr>is_integer_' := b\<rparr>"

definition add_local_decision :: "BPNode \<Rightarrow> BranchingDecision \<Rightarrow> BPNode" where
  "add_local_decision n decision = n\<lparr>local_decisions_' := local_decisions_' n @ [decision]\<rparr>"

definition set_inherited_decisions :: "BPNode \<Rightarrow> BranchingDecision list \<Rightarrow> BPNode" where
  "set_inherited_decisions n decisions = n\<lparr>inherited_decisions_' := decisions\<rparr>"

definition add_child :: "BPNode \<Rightarrow> NodeId \<Rightarrow> BPNode" where
  "add_child n child_id = n\<lparr>children_' := children_' n @ [child_id]\<rparr>"

definition set_solution :: "BPNode \<Rightarrow> double list \<Rightarrow> BPNode" where
  "set_solution n sol = n\<lparr>solution_' := sol\<rparr>"

definition set_solution_columns :: "BPNode \<Rightarrow> int list \<Rightarrow> BPNode" where
  "set_solution_columns n cols = n\<lparr>solution_columns_' := cols\<rparr>"

text \<open>
  try_prune_by_bound changes the node and returns a flag: the model returns the node
  after the call and the flag. The literal 1e-6 is the double nearest to 1 / 1000000.
\<close>

definition try_prune_by_bound :: "BPNode \<Rightarrow> double \<Rightarrow> BPNode \<times> bool" where
  "try_prune_by_bound n global_upper =
     (if d_ge (lower_bound_' n) (d_sub global_upper (round_double (1 / 1000000)))
      then (n\<lparr>status_' := PRUNED_BOUND\<rparr>, True)
      else (n, False))"

section \<open>node_pool.hpp\<close>

text \<open>
  NodePool hands out the slots of its chunks one after the other; a slot is never moved
  and never freed, and a fresh slot holds a default-constructed node. The model keeps the
  slots handed out so far in a list, in the order of their allocation. A pointer to a
  node (NodePtr, BPNode*) is the index of its slot, and the null pointer is None.
  Dereferencing a pointer that is not the index of a slot has no meaning in the source;
  the theorems are about pointers to slots.
\<close>

type_synonym NodePtr = nat

type_synonym NodePool = "BPNode list"

definition allocate :: "NodePool \<Rightarrow> NodePool \<times> NodePtr" where
  "allocate pool = (pool @ [BPNode_root], length pool)"

section \<open>tree.hpp\<close>

record TreeStats =
  nodes_created :: int
  nodes_processed :: int
  nodes_pruned_bound :: int
  nodes_pruned_infeasible :: int
  nodes_integer :: int
  nodes_branched :: int
  nodes_open :: int
  max_depth :: int
  best_lower_bound :: double
  best_upper_bound :: double

definition TreeStats_init :: TreeStats where
  "TreeStats_init =
     \<lparr> nodes_created = 0, nodes_processed = 0, nodes_pruned_bound = 0,
       nodes_pruned_infeasible = 0, nodes_integer = 0, nodes_branched = 0,
       nodes_open = 0, max_depth = 0,
       best_lower_bound = d_neg PosInf, best_upper_bound = PosInf \<rparr>"

text \<open>
  class BPTree. The map from ids to node pointers is a list of pairs: the value stored
  under an id is found with map_of, and an assignment to nodes_[id] is AList.update. The
  source iterates over the map in an order that the language leaves open; the model
  iterates in the order of the list.
\<close>

record BPTree =
  minimize_' :: bool
  node_pool_' :: NodePool
  nodes_' :: "(NodeId \<times> NodePtr) list"
  root_' :: "NodePtr option"
  incumbent_' :: "NodePtr option"
  next_id_' :: int
  global_lower_bound_' :: double
  global_upper_bound_' :: double
  stats_' :: TreeStats

definition BPTree_new :: "bool \<Rightarrow> BPTree" where
  "BPTree_new minimize =
     (let (pool, root) = allocate [];
          next_id = 0;
          pool = pool[root := set_id (pool ! root) next_id];
          next_id = next_id + 1
      in \<lparr> minimize_' = minimize,
           node_pool_' = pool,
           nodes_' = AList.update (id_' (pool ! root)) root [],
           root_' = Some root,
           incumbent_' = None,
           next_id_' = next_id,
           global_lower_bound_' = d_neg PosInf,
           global_upper_bound_' = PosInf,
           stats_' = TreeStats_init\<lparr>nodes_created := 1, nodes_open := 1\<rparr> \<rparr>)"

text \<open>node(id): the pointer registered under the id, or the null pointer.\<close>

definition node :: "BPTree \<Rightarrow> NodeId \<Rightarrow> NodePtr option" where
  "node t i = map_of (nodes_' t) i"

definition has_node :: "BPTree \<Rightarrow> NodeId \<Rightarrow> bool" where
  "has_node t i = (map_of (nodes_' t) i \<noteq> None)"

definition num_nodes :: "BPTree \<Rightarrow> nat" where
  "num_nodes t = length (nodes_' t)"

text \<open>
  create_child returns the tree after the call and the pointer to the child. The
  statements of the source are taken in their order, each on the pool the one before
  left.
\<close>

definition create_child :: "BPTree \<Rightarrow> NodePtr \<Rightarrow> BranchingDecision \<Rightarrow> BPTree \<times> NodePtr" where
  "create_child t parent decision =
     (let (pool, child) = allocate (node_pool_' t);
          child_id = next_id_' t;
          pool = pool[child := BPNode_child child_id (id_' (pool ! parent))
                                  (depth_' (pool ! parent) + 1) decision];
          inherited = all_decisions (pool ! parent);
          pool = pool[child := set_inherited_decisions (pool ! child) inherited];
          pool = pool[child := set_lower_bound (pool ! child) (lower_bound_' (pool ! parent))];
          pool = pool[child := set_upper_bound (pool ! child) (upper_bound_' (pool ! parent))];
          pool = pool[parent := add_child (pool ! parent) child_id];
          st = stats_' t;
          st = st\<lparr>nodes_created := nodes_created st + 1\<rparr>;
          st = st\<lparr>nodes_open := nodes_open st + 1\<rparr>;
          st = (if depth_' (pool ! child) > max_depth st
                then st\<lparr>max_depth := depth_' (pool ! child)\<rparr> else st)
      in (t\<lparr> node_pool_' := pool,
             nodes_' := AList.update child_id child (nodes_' t),
             next_id_' := next_id_' t + 1,
             stats_' := st \<rparr>, child))"

text \<open>The loop of create_children: one create_child for each decision, left to right.\<close>

fun create_children_loop ::
  "BPTree \<Rightarrow> NodePtr \<Rightarrow> BranchingDecision list \<Rightarrow> NodePtr list \<Rightarrow> BPTree \<times> NodePtr list" where
  "create_children_loop t parent [] children = (t, children)"
| "create_children_loop t parent (decision # decisions) children =
     (let (t', child) = create_child t parent decision
      in create_children_loop t' parent decisions (children @ [child]))"

definition create_children ::
  "BPTree \<Rightarrow> NodePtr \<Rightarrow> BranchingDecision list \<Rightarrow> BPTree \<times> NodePtr list" where
  "create_children t parent decisions =
     (let (t, children) = create_children_loop t parent decisions [];
          pool = node_pool_' t;
          pool = pool[parent := set_status (pool ! parent) BRANCHED];
          st = stats_' t;
          st = st\<lparr>nodes_branched := nodes_branched st + 1\<rparr>;
          st = st\<lparr>nodes_open := nodes_open st - 1\<rparr>
      in (t\<lparr>node_pool_' := pool, stats_' := st\<rparr>, children))"

definition mark_processed :: "BPTree \<Rightarrow> NodePtr \<Rightarrow> NodeStatus \<Rightarrow> BPTree" where
  "mark_processed t p new_status =
     (let pool = node_pool_' t;
          old_status = status_' (pool ! p);
          pool = pool[p := set_status (pool ! p) new_status];
          st = stats_' t;
          st = (if old_status = PENDING \<or> old_status = PROCESSING
                then (let st = st\<lparr>nodes_processed := nodes_processed st + 1\<rparr>
                      in if new_status \<noteq> BRANCHED
                         then st\<lparr>nodes_open := nodes_open st - 1\<rparr> else st)
                else st);
          st = (case new_status of
                  PRUNED_BOUND \<Rightarrow> st\<lparr>nodes_pruned_bound := nodes_pruned_bound st + 1\<rparr>
                | PRUNED_INFEASIBLE \<Rightarrow>
                    st\<lparr>nodes_pruned_infeasible := nodes_pruned_infeasible st + 1\<rparr>
                | INTEGER \<Rightarrow> st\<lparr>nodes_integer := nodes_integer st + 1\<rparr>
                | _ \<Rightarrow> st)
      in t\<lparr>node_pool_' := pool, stats_' := st\<rparr>)"

definition set_global_lower_bound :: "BPTree \<Rightarrow> double \<Rightarrow> BPTree" where
  "set_global_lower_bound t lb = t\<lparr>global_lower_bound_' := lb\<rparr>"

definition set_global_upper_bound :: "BPTree \<Rightarrow> double \<Rightarrow> BPTree" where
  "set_global_upper_bound t ub = t\<lparr>global_upper_bound_' := ub\<rparr>"

text \<open>update_bounds returns the tree after the call and the flag improved.\<close>

definition update_bounds :: "BPTree \<Rightarrow> NodePtr \<Rightarrow> BPTree \<times> bool" where
  "update_bounds t p =
     (let improved = False;
          n = node_pool_' t ! p
      in if is_integer_' n \<and> d_lt (lp_value_' n) (global_upper_bound_' t)
         then (let t = t\<lparr>global_upper_bound_' := lp_value_' n\<rparr>;
                   t = t\<lparr>stats_' := (stats_' t)\<lparr>best_upper_bound := global_upper_bound_' t\<rparr>\<rparr>;
                   improved = True
               in (t, improved))
         else (t, improved))"

fun compute_lower_bound_loop :: "BPTree \<Rightarrow> NodeId list \<Rightarrow> double \<Rightarrow> double" where
  "compute_lower_bound_loop t [] lb = lb"
| "compute_lower_bound_loop t (i # ids) lb =
     (case map_of (nodes_' t) i of
        None \<Rightarrow> compute_lower_bound_loop t ids lb
      | Some p \<Rightarrow>
          if can_be_explored (node_pool_' t ! p)
          then compute_lower_bound_loop t ids (d_min lb (lower_bound_' (node_pool_' t ! p)))
          else compute_lower_bound_loop t ids lb)"

definition compute_lower_bound :: "BPTree \<Rightarrow> NodeId list \<Rightarrow> double" where
  "compute_lower_bound t open_node_ids =
     compute_lower_bound_loop t open_node_ids (global_upper_bound_' t)"

text \<open>
  The loop of prune_by_bound over the entries of the map. Its state is the pool, the
  statistics and the counter pruned.
\<close>

fun prune_by_bound_loop ::
  "double \<Rightarrow> (NodeId \<times> NodePtr) list \<Rightarrow> NodePool \<times> TreeStats \<times> int \<Rightarrow> NodePool \<times> TreeStats \<times> int"
  where
  "prune_by_bound_loop gub [] s = s"
| "prune_by_bound_loop gub ((i, p) # entries) (pool, st, pruned) =
     (if can_be_explored (pool ! p) \<and> snd (try_prune_by_bound (pool ! p) gub)
      then prune_by_bound_loop gub entries
             (pool[p := fst (try_prune_by_bound (pool ! p) gub)],
              st\<lparr>nodes_pruned_bound := nodes_pruned_bound st + 1,
                 nodes_open := nodes_open st - 1\<rparr>,
              pruned + 1)
      else prune_by_bound_loop gub entries (pool, st, pruned))"

definition prune_by_bound :: "BPTree \<Rightarrow> BPTree \<times> int" where
  "prune_by_bound t =
     (let (pool, st, pruned) =
            prune_by_bound_loop (global_upper_bound_' t) (nodes_' t) (node_pool_' t, stats_' t, 0)
      in (t\<lparr>node_pool_' := pool, stats_' := st\<rparr>, pruned))"

definition get_open_nodes :: "BPTree \<Rightarrow> NodeId list" where
  "get_open_nodes t =
     map fst (filter (\<lambda>(i, p). can_be_explored (node_pool_' t ! p)) (nodes_' t))"

definition is_complete :: "BPTree \<Rightarrow> bool" where
  "is_complete t = (nodes_open (stats_' t) = 0)"

text \<open>
  The loop of get_path_to_root. Nothing in the function bounds the number of its
  iterations (a parent id can lead back to a node already visited), so the loop is a
  partial function: None is a loop that does not end.
\<close>

partial_function (option) get_path_loop ::
  "BPTree \<Rightarrow> NodeId \<Rightarrow> NodeId list \<Rightarrow> NodeId list option" where
  "get_path_loop t current path =
     (if current \<noteq> INVALID_ID
      then (case map_of (nodes_' t) current of
              None \<Rightarrow> Some (path @ [current])
            | Some p \<Rightarrow> get_path_loop t (parent_id_' (node_pool_' t ! p)) (path @ [current]))
      else Some path)"

definition get_path_to_root :: "BPTree \<Rightarrow> NodeId \<Rightarrow> NodeId list option" where
  "get_path_to_root t target_id = map_option rev (get_path_loop t target_id [])"

definition set_incumbent :: "BPTree \<Rightarrow> NodePtr option \<Rightarrow> BPTree" where
  "set_incumbent t p =
     (let t = t\<lparr>incumbent_' := p\<rparr>
      in case p of
           None \<Rightarrow> t
         | Some q \<Rightarrow>
             (let t = t\<lparr>global_upper_bound_' := lp_value_' (node_pool_' t ! q)\<rparr>
              in t\<lparr>stats_' := (stats_' t)\<lparr>best_upper_bound := global_upper_bound_' t\<rparr>\<rparr>))"

section \<open>selection.hpp\<close>

text \<open>
  A selector holds pointers to nodes that the tree owns, so every operation that reads a
  node takes the pool as an argument.

  std::priority_queue<BPNode*, std::vector<BPNode*>, Compare>: top() is an element that
  the comparison orders before no other element, and pop() removes it. The standard
  leaves open which of several such elements is the top. The model keeps the queue as
  the list of its elements in the order in which pop() would remove them: push(x) puts x
  before the first element that the comparison orders before x, behind the elements
  pushed earlier that are as good as x. The comparison reads the bounds of the nodes when
  an element is pushed; a bound that changes while the node is in the queue does not
  move the element.
\<close>

type_synonym priority_queue = "NodePtr list"

fun pq_push :: "(NodePtr \<Rightarrow> NodePtr \<Rightarrow> bool) \<Rightarrow> priority_queue \<Rightarrow> NodePtr \<Rightarrow> priority_queue" where
  "pq_push cmp [] x = [x]"
| "pq_push cmp (y # ys) x = (if cmp y x then x # y # ys else y # pq_push cmp ys x)"

text \<open>
  The two loops of prune(), which are the same in BestFirstSelector and
  DepthFirstSelector: the first empties the queue from its top and sorts the elements
  into valid and removed, the second pushes the valid ones into the empty queue.
\<close>

fun prune_drain :: "NodePool \<Rightarrow> priority_queue \<Rightarrow> NodePtr list \<Rightarrow> nat \<Rightarrow> NodePtr list \<times> nat" where
  "prune_drain pool [] valid removed = (valid, removed)"
| "prune_drain pool (n # queue) valid removed =
     (if can_be_explored (pool ! n)
      then prune_drain pool queue (valid @ [n]) removed
      else prune_drain pool queue valid (removed + 1))"

fun push_all ::
  "(NodePtr \<Rightarrow> NodePtr \<Rightarrow> bool) \<Rightarrow> priority_queue \<Rightarrow> NodePtr list \<Rightarrow> priority_queue" where
  "push_all cmp queue [] = queue"
| "push_all cmp queue (n # valid) = push_all cmp (pq_push cmp queue n) valid"

subsection \<open>BestFirstSelector\<close>

text \<open>CompareByBound: a is ordered before b when its lower bound is greater.\<close>

definition CompareByBound :: "NodePool \<Rightarrow> NodePtr \<Rightarrow> NodePtr \<Rightarrow> bool" where
  "CompareByBound pool a b = d_gt (lower_bound_' (pool ! a)) (lower_bound_' (pool ! b))"

definition BestFirst_add_node :: "NodePool \<Rightarrow> priority_queue \<Rightarrow> NodePtr option \<Rightarrow> priority_queue" where
  "BestFirst_add_node pool queue node_ptr =
     (case node_ptr of
        None \<Rightarrow> queue
      | Some n \<Rightarrow>
          if can_be_explored (pool ! n) then pq_push (CompareByBound pool) queue n else queue)"

fun BestFirst_add_nodes ::
  "NodePool \<Rightarrow> priority_queue \<Rightarrow> NodePtr option list \<Rightarrow> priority_queue" where
  "BestFirst_add_nodes pool queue [] = queue"
| "BestFirst_add_nodes pool queue (n # ns) =
     BestFirst_add_nodes pool (BestFirst_add_node pool queue n) ns"

definition BestFirst_prune :: "NodePool \<Rightarrow> priority_queue \<Rightarrow> priority_queue \<times> nat" where
  "BestFirst_prune pool queue =
     (let (valid, removed) = prune_drain pool queue [] 0
      in (push_all (CompareByBound pool) [] valid, removed))"

text \<open>select_next returns the queue after the call and the node, None being nullptr.\<close>

definition BestFirst_select_next ::
  "NodePool \<Rightarrow> priority_queue \<Rightarrow> priority_queue \<times> NodePtr option" where
  "BestFirst_select_next pool queue =
     (case fst (BestFirst_prune pool queue) of
        [] \<Rightarrow> ([], None)
      | n # queue' \<Rightarrow> (queue', Some n))"

definition BestFirst_peek_next :: "priority_queue \<Rightarrow> NodePtr option" where
  "BestFirst_peek_next queue = (case queue of [] \<Rightarrow> None | n # queue' \<Rightarrow> Some n)"

definition BestFirst_empty :: "priority_queue \<Rightarrow> bool" where
  "BestFirst_empty queue = (queue = [])"

definition BestFirst_size :: "priority_queue \<Rightarrow> nat" where
  "BestFirst_size queue = length queue"

definition BestFirst_best_bound :: "NodePool \<Rightarrow> priority_queue \<Rightarrow> double" where
  "BestFirst_best_bound pool queue =
     (case queue of [] \<Rightarrow> PosInf | n # queue' \<Rightarrow> lower_bound_' (pool ! n))"

subsection \<open>DepthFirstSelector\<close>

text \<open>
  CompareByDepth: a is ordered before b when it is less deep, and at the same depth when
  its lower bound is greater.
\<close>

definition CompareByDepth :: "NodePool \<Rightarrow> NodePtr \<Rightarrow> NodePtr \<Rightarrow> bool" where
  "CompareByDepth pool a b =
     (if depth_' (pool ! a) \<noteq> depth_' (pool ! b)
      then depth_' (pool ! a) < depth_' (pool ! b)
      else d_gt (lower_bound_' (pool ! a)) (lower_bound_' (pool ! b)))"

definition DepthFirst_add_node :: "NodePool \<Rightarrow> priority_queue \<Rightarrow> NodePtr option \<Rightarrow> priority_queue" where
  "DepthFirst_add_node pool queue node_ptr =
     (case node_ptr of
        None \<Rightarrow> queue
      | Some n \<Rightarrow>
          if can_be_explored (pool ! n) then pq_push (CompareByDepth pool) queue n else queue)"

fun DepthFirst_add_nodes ::
  "NodePool \<Rightarrow> priority_queue \<Rightarrow> NodePtr option list \<Rightarrow> priority_queue" where
  "DepthFirst_add_nodes pool queue [] = queue"
| "DepthFirst_add_nodes pool queue (n # ns) =
     DepthFirst_add_nodes pool (DepthFirst_add_node pool queue n) ns"

definition DepthFirst_prune :: "NodePool \<Rightarrow> priority_queue \<Rightarrow> priority_queue \<times> nat" where
  "DepthFirst_prune pool queue =
     (let (valid, removed) = prune_drain pool queue [] 0
      in (push_all (CompareByDepth pool) [] valid, removed))"

definition DepthFirst_select_next ::
  "NodePool \<Rightarrow> priority_queue \<Rightarrow> priority_queue \<times> NodePtr option" where
  "DepthFirst_select_next pool queue =
     (case fst (DepthFirst_prune pool queue) of
        [] \<Rightarrow> ([], None)
      | n # queue' \<Rightarrow> (queue', Some n))"

definition DepthFirst_empty :: "priority_queue \<Rightarrow> bool" where
  "DepthFirst_empty queue = (queue = [])"

text \<open>The loop of best_bound over a copy of the queue, from its top.\<close>

fun best_bound_loop :: "NodePool \<Rightarrow> priority_queue \<Rightarrow> double \<Rightarrow> double" where
  "best_bound_loop pool [] best = best"
| "best_bound_loop pool (n # copy_queue) best =
     best_bound_loop pool copy_queue (d_min best (lower_bound_' (pool ! n)))"

definition DepthFirst_best_bound :: "NodePool \<Rightarrow> priority_queue \<Rightarrow> double" where
  "DepthFirst_best_bound pool queue =
     (if queue = [] then PosInf else best_bound_loop pool queue PosInf)"

subsection \<open>BestEstimateSelector and HybridSelector\<close>

text \<open>
  Of these two selectors only best_bound is modelled. BestEstimateSelector keeps its
  handles in the vector nodes_, in the order of add_node, and its best_bound is the loop
  of DepthFirstSelector over this vector. HybridSelector returns the best_bound of its
  member best_first_.
\<close>

definition BestEstimate_best_bound :: "NodePool \<Rightarrow> NodePtr list \<Rightarrow> double" where
  "BestEstimate_best_bound pool nodes =
     (if nodes = [] then PosInf else best_bound_loop pool nodes PosInf)"

definition Hybrid_best_bound :: "NodePool \<Rightarrow> priority_queue \<Rightarrow> double" where
  "Hybrid_best_bound pool best_first = BestFirst_best_bound pool best_first"

section \<open>Sequences of calls on a tree\<close>

text \<open>
  A statement about every state of a tree is a statement about the tree after any
  sequence of calls. A call is an operation of BPTree, or a member function of BPNode
  called through a pointer to a node.
\<close>

datatype tree_call =
    CreateChild NodePtr BranchingDecision
  | CreateChildren NodePtr "BranchingDecision list"
  | MarkProcessed NodePtr NodeStatus
  | UpdateBounds NodePtr
  | PruneByBound
  | SetIncumbent "NodePtr option"
  | SetGlobalLowerBound double
  | SetGlobalUpperBound double
  | SetLowerBound NodePtr double
  | SetUpperBound NodePtr double
  | SetLpValue NodePtr double
  | SetIsInteger NodePtr bool
  | SetStatus NodePtr NodeStatus
  | SetSolution NodePtr "double list"
  | SetSolutionColumns NodePtr "int list"
  | AddLocalDecision NodePtr BranchingDecision

text \<open>A member function of BPNode called on the node that p points to.\<close>

definition on_node :: "BPTree \<Rightarrow> NodePtr \<Rightarrow> (BPNode \<Rightarrow> BPNode) \<Rightarrow> BPTree" where
  "on_node t p f = t\<lparr>node_pool_' := (node_pool_' t)[p := f (node_pool_' t ! p)]\<rparr>"

fun call :: "tree_call \<Rightarrow> BPTree \<Rightarrow> BPTree" where
  "call (CreateChild p d) t = fst (create_child t p d)"
| "call (CreateChildren p ds) t = fst (create_children t p ds)"
| "call (MarkProcessed p s) t = mark_processed t p s"
| "call (UpdateBounds p) t = fst (update_bounds t p)"
| "call PruneByBound t = fst (prune_by_bound t)"
| "call (SetIncumbent p) t = set_incumbent t p"
| "call (SetGlobalLowerBound lb) t = set_global_lower_bound t lb"
| "call (SetGlobalUpperBound ub) t = set_global_upper_bound t ub"
| "call (SetLowerBound p lb) t = on_node t p (\<lambda>n. set_lower_bound n lb)"
| "call (SetUpperBound p ub) t = on_node t p (\<lambda>n. set_upper_bound n ub)"
| "call (SetLpValue p v) t = on_node t p (\<lambda>n. set_lp_value n v)"
| "call (SetIsInteger p b) t = on_node t p (\<lambda>n. set_is_integer n b)"
| "call (SetStatus p s) t = on_node t p (\<lambda>n. set_status n s)"
| "call (SetSolution p sol) t = on_node t p (\<lambda>n. set_solution n sol)"
| "call (SetSolutionColumns p cols) t = on_node t p (\<lambda>n. set_solution_columns n cols)"
| "call (AddLocalDecision p d) t = on_node t p (\<lambda>n. add_local_decision n d)"

text \<open>The pointer that a call passes, if it passes one.\<close>

fun pointer_of :: "tree_call \<Rightarrow> NodePtr option" where
  "pointer_of (CreateChild p d) = Some p"
| "pointer_of (CreateChildren p ds) = Some p"
| "pointer_of (MarkProcessed p s) = Some p"
| "pointer_of (UpdateBounds p) = Some p"
| "pointer_of PruneByBound = None"
| "pointer_of (SetIncumbent p) = p"
| "pointer_of (SetGlobalLowerBound lb) = None"
| "pointer_of (SetGlobalUpperBound ub) = None"
| "pointer_of (SetLowerBound p lb) = Some p"
| "pointer_of (SetUpperBound p ub) = Some p"
| "pointer_of (SetLpValue p v) = Some p"
| "pointer_of (SetIsInteger p b) = Some p"
| "pointer_of (SetStatus p s) = Some p"
| "pointer_of (SetSolution p sol) = Some p"
| "pointer_of (SetSolutionColumns p cols) = Some p"
| "pointer_of (AddLocalDecision p d) = Some p"

text \<open>The pointer of the call, if there is one, points to a node of the tree.\<close>

definition pointer_ok :: "tree_call \<Rightarrow> BPTree \<Rightarrow> bool" where
  "pointer_ok c t =
     (case pointer_of c of None \<Rightarrow> True | Some p \<Rightarrow> p < length (node_pool_' t))"

text \<open>
  The tree after the calls cs, each of which has to pass the test ok in the state in
  which it is made; None when one of them does not.
\<close>

fun run_calls :: "(tree_call \<Rightarrow> BPTree \<Rightarrow> bool) \<Rightarrow> tree_call list \<Rightarrow> BPTree \<Rightarrow> BPTree option" where
  "run_calls ok [] t = Some t"
| "run_calls ok (c # cs) t = (if ok c t then run_calls ok cs (call c t) else None)"

text \<open>The tree after the calls cs, with no test.\<close>

definition run_all :: "tree_call list \<Rightarrow> BPTree \<Rightarrow> BPTree" where
  "run_all cs t = foldl (\<lambda>t c. call c t) t cs"

section \<open>The statements about the decisions of a node\<close>

text \<open>
  Every registered node other than the root has a registered parent, and its inherited
  decisions are the inherited decisions of the parent followed by the local decisions
  of the parent.
\<close>

definition inherits_from_parent :: "BPTree \<Rightarrow> bool" where
  "inherits_from_parent t =
     list_all
       (\<lambda>(i, p). Some p = root_' t \<or>
          (case node t (parent_id_' (node_pool_' t ! p)) of
             None \<Rightarrow> False
           | Some q \<Rightarrow>
               inherited_decisions_' (node_pool_' t ! p) =
                 inherited_decisions_' (node_pool_' t ! q) @ local_decisions_' (node_pool_' t ! q)))
       (nodes_' t)"

text \<open>The local decisions of the nodes with the given ids, one node after the other.\<close>

definition local_decisions_along :: "BPTree \<Rightarrow> NodeId list \<Rightarrow> BranchingDecision list" where
  "local_decisions_along t ids =
     concat (map (\<lambda>i. case node t i of
                         None \<Rightarrow> []
                       | Some q \<Rightarrow> local_decisions_' (node_pool_' t ! q)) ids)"

text \<open>
  For every registered node, get_path_to_root returns a path that starts at the root and
  ends at the node, and the inherited decisions of the node are the local decisions of
  the nodes on the path before it, from the root to the parent.
\<close>

definition inherits_from_ancestors :: "BPTree \<Rightarrow> bool" where
  "inherits_from_ancestors t =
     list_all
       (\<lambda>(i, p). case get_path_to_root t i of
                    None \<Rightarrow> False
                  | Some path \<Rightarrow>
                      path \<noteq> [] \<and> node t (hd path) = root_' t \<and> last path = i \<and>
                      inherited_decisions_' (node_pool_' t ! p) =
                        local_decisions_along t (butlast path))
       (nodes_' t)"

text \<open>
  The calls that leave the local decisions of every node that has a child as they are:
  add_local_decision is called on a node without children only.
\<close>

fun keeps_decisions :: "tree_call \<Rightarrow> BPTree \<Rightarrow> bool" where
  "keeps_decisions (AddLocalDecision p d) t =
     (p < length (node_pool_' t) \<and> \<not> has_children (node_pool_' t ! p))"
| "keeps_decisions c t = pointer_ok c t"

section \<open>The statements about the statistics\<close>

text \<open>The number of registered nodes with a given status, by a scan of the map.\<close>

definition count_status :: "BPTree \<Rightarrow> NodeStatus \<Rightarrow> int" where
  "count_status t s =
     int (length (filter (\<lambda>(i, p). status_' (node_pool_' t ! p) = s) (nodes_' t)))"

definition stats_balance :: "BPTree \<Rightarrow> bool" where
  "stats_balance t =
     (nodes_open (stats_' t) + count_status t BRANCHED + count_status t PRUNED_BOUND +
        count_status t PRUNED_INFEASIBLE + count_status t INTEGER + count_status t FATHOMED
      = nodes_created (stats_' t))"

text \<open>
  The counters of the terminal statuses are the numbers of nodes with these statuses.
  Fathomed has no counter in TreeStats.
\<close>

definition counters_agree :: "BPTree \<Rightarrow> bool" where
  "counters_agree t =
     (nodes_branched (stats_' t) = count_status t BRANCHED \<and>
      nodes_pruned_bound (stats_' t) = count_status t PRUNED_BOUND \<and>
      nodes_pruned_infeasible (stats_' t) = count_status t PRUNED_INFEASIBLE \<and>
      nodes_integer (stats_' t) = count_status t INTEGER)"

text \<open>
  The calls of a driver that keeps to the order of the status: it branches a node that is
  not yet terminal, it marks a node that is not yet terminal with a terminal status other
  than Branched, and it sets a status itself only to start the processing of a pending
  node.
\<close>

fun follows_protocol :: "tree_call \<Rightarrow> BPTree \<Rightarrow> bool" where
  "follows_protocol (CreateChildren p ds) t =
     (p < length (node_pool_' t) \<and> \<not> is_processed (node_pool_' t ! p))"
| "follows_protocol (MarkProcessed p s) t =
     (p < length (node_pool_' t) \<and> \<not> is_processed (node_pool_' t ! p) \<and>
      s \<noteq> PENDING \<and> s \<noteq> PROCESSING \<and> s \<noteq> BRANCHED)"
| "follows_protocol (SetStatus p s) t =
     (p < length (node_pool_' t) \<and> status_' (node_pool_' t ! p) = PENDING \<and> s = PROCESSING)"
| "follows_protocol c t = pointer_ok c t"

section \<open>Invariants used in the proofs\<close>

text \<open>
  Two nodes with the same id, parent id and decisions, the second with a child if the
  first has one; two pools of the same length whose nodes are so related.
\<close>

definition same_links :: "BPNode \<Rightarrow> BPNode \<Rightarrow> bool" where
  "same_links n n' \<longleftrightarrow>
     id_' n' = id_' n \<and> parent_id_' n' = parent_id_' n \<and>
     inherited_decisions_' n' = inherited_decisions_' n \<and>
     local_decisions_' n' = local_decisions_' n \<and>
     (has_children n \<longrightarrow> has_children n')"

definition pool_links :: "NodePool \<Rightarrow> NodePool \<Rightarrow> bool" where
  "pool_links pool pool' \<longleftrightarrow>
     length pool' = length pool \<and> (\<forall>a<length pool. same_links (pool ! a) (pool' ! a))"

text \<open>
  The map of a tree with n nodes: the node created as the a-th has the id a and lies in
  the slot a.
\<close>

definition registry :: "nat \<Rightarrow> (NodeId \<times> NodePtr) list" where
  "registry n = map (\<lambda>a. (int a, a)) [0..<n]"

text \<open>
  The ids are the indices of the slots, the root has no parent and inherits nothing, and
  every other node was created after its parent, which has a child, and inherits from
  it.
\<close>

definition pool_wf :: "NodePool \<Rightarrow> bool" where
  "pool_wf pool \<longleftrightarrow>
     0 < length pool \<and>
     (\<forall>a<length pool. id_' (pool ! a) = int a) \<and>
     parent_id_' (pool ! 0) = INVALID_ID \<and>
     inherited_decisions_' (pool ! 0) = [] \<and>
     (\<forall>a<length pool. 0 < a \<longrightarrow>
        (\<exists>q<a. parent_id_' (pool ! a) = int q \<and> has_children (pool ! q) \<and>
               inherited_decisions_' (pool ! a) =
                 inherited_decisions_' (pool ! q) @ local_decisions_' (pool ! q)))"

definition tree_wf :: "BPTree \<Rightarrow> bool" where
  "tree_wf t \<longleftrightarrow>
     pool_wf (node_pool_' t) \<and> nodes_' t = registry (length (node_pool_' t)) \<and>
     next_id_' t = int (length (node_pool_' t)) \<and> root_' t = Some 0"

text \<open>
  The number of nodes of the pool whose status has the property P; and the invariant of
  the statistics: the map is the registry of the pool, nodes_open and the number of
  nodes that are neither Pending nor Processing add up to nodes_created, and each of the
  four counters of a terminal status is the number of nodes with this status.
\<close>

definition count_where :: "(NodeStatus \<Rightarrow> bool) \<Rightarrow> NodePool \<Rightarrow> int" where
  "count_where P pool = int (length (filter (\<lambda>n. P (status_' n)) pool))"

definition stats_ok :: "NodePool \<Rightarrow> TreeStats \<Rightarrow> bool" where
  "stats_ok pool st \<longleftrightarrow>
     nodes_open st + count_where (\<lambda>s. s \<noteq> PENDING \<and> s \<noteq> PROCESSING) pool = nodes_created st \<and>
     nodes_branched st = count_where (\<lambda>s. s = BRANCHED) pool \<and>
     nodes_pruned_bound st = count_where (\<lambda>s. s = PRUNED_BOUND) pool \<and>
     nodes_pruned_infeasible st = count_where (\<lambda>s. s = PRUNED_INFEASIBLE) pool \<and>
     nodes_integer st = count_where (\<lambda>s. s = INTEGER) pool"

definition balanced :: "BPTree \<Rightarrow> bool" where
  "balanced t \<longleftrightarrow>
     nodes_' t = registry (length (node_pool_' t)) \<and>
     next_id_' t = int (length (node_pool_' t)) \<and> stats_ok (node_pool_' t) (stats_' t)"

text \<open>
  What prune_by_bound does to a node that it visits: try_prune_by_bound, if the node can
  be explored.
\<close>

definition pruned_if_open :: "double \<Rightarrow> BPNode \<Rightarrow> BPNode" where
  "pruned_if_open gub n = (if can_be_explored n then fst (try_prune_by_bound n gub) else n)"

section \<open>The statements about the selectors\<close>

text \<open>
  The queue is in the order of the comparison: no element is ordered before an element
  behind it. This is the state of a queue whose elements were pushed with the bounds
  that the nodes have now.
\<close>

definition pq_ordered :: "(NodePtr \<Rightarrow> NodePtr \<Rightarrow> bool) \<Rightarrow> priority_queue \<Rightarrow> bool" where
  "pq_ordered cmp queue = sorted_wrt (\<lambda>a b. \<not> cmp a b) queue"

definition strict_order :: "(NodePtr \<Rightarrow> NodePtr \<Rightarrow> bool) \<Rightarrow> bool" where
  "strict_order cmp \<longleftrightarrow>
     (\<forall>a b c. cmp a b \<longrightarrow> cmp b c \<longrightarrow> cmp a c) \<and> (\<forall>a b. cmp a b \<longrightarrow> \<not> cmp b a)"

text \<open>The handles that point to a node that can be explored.\<close>

definition explorable :: "NodePool \<Rightarrow> NodePtr list \<Rightarrow> NodePtr list" where
  "explorable pool hs = filter (\<lambda>n. can_be_explored (pool ! n)) hs"

text \<open>
  m is the minimum of the lower bounds of the nodes that the handles hs point to, and
  +infinity when there is no handle.
\<close>

definition is_min_bound :: "NodePool \<Rightarrow> NodePtr list \<Rightarrow> double \<Rightarrow> bool" where
  "is_min_bound pool hs m =
     (if hs = [] then m = PosInf
      else list_ex (\<lambda>h. lower_bound_' (pool ! h) = m) hs \<and>
           list_all (\<lambda>h. d_le m (lower_bound_' (pool ! h))) hs)"

text \<open>
  k calls of select_next, one after the other, with no other call between them: the queue
  after the last call and the results of the calls.
\<close>

fun select_repeat ::
  "(priority_queue \<Rightarrow> priority_queue \<times> NodePtr option) \<Rightarrow> nat \<Rightarrow> priority_queue \<Rightarrow>
   priority_queue \<times> NodePtr option list" where
  "select_repeat select_next 0 queue = (queue, [])"
| "select_repeat select_next (Suc k) queue =
     (let (queue, r) = select_next queue;
          (queue, rs) = select_repeat select_next k queue
      in (queue, r # rs))"

text \<open>The nodes among the results, the null pointers left out.\<close>

definition returned :: "NodePtr option list \<Rightarrow> NodePtr list" where
  "returned rs = map the (filter (\<lambda>r. r \<noteq> None) rs)"

section \<open>Inputs of the examples\<close>

text \<open>
  The node of the unit test of try_prune_by_bound (lower bound 100), after it has been
  branched.
\<close>

definition branched_node :: BPNode where
  "branched_node = set_status (set_lower_bound BPNode_root (Fin 100)) BRANCHED"

text \<open>
  A tree whose root is branched into two children, with the lower bounds 100 for the
  root, 100 and 50 for the children, and the global upper bound 75.
\<close>

definition guarded_tree :: BPTree where
  "guarded_tree =
     run_all
       [CreateChildren 0 [variable_branch 0 (Fin 1) True, variable_branch 0 (Fin 2) False],
        SetLowerBound 0 (Fin 100), SetLowerBound 1 (Fin 100), SetLowerBound 2 (Fin 50),
        SetGlobalUpperBound (Fin 75)] (BPTree_new True)"

text \<open>A new tree whose root has been given the LP value 100 and an integer solution.\<close>

definition integer_root_tree :: BPTree where
  "integer_root_tree =
     call (SetIsInteger 0 True) (call (SetLpValue 0 (Fin 100)) (BPTree_new True))"

text \<open>
  A decision is added to the root after the root has got a child; and scenario E2 of the
  specification.
\<close>

definition late_decision_calls :: "tree_call list" where
  "late_decision_calls =
     [CreateChild 0 (variable_branch 0 (Fin 1) True),
      AddLocalDecision 0 (ryan_foster 1 2 True)]"

definition late_decision_tree :: BPTree where
  "late_decision_tree = run_all late_decision_calls (BPTree_new True)"

definition E2_calls :: "tree_call list" where
  "E2_calls =
     [CreateChild 0 (variable_branch 0 (Fin 1) True),
      CreateChild 1 (ryan_foster 1 2 True)]"

definition E2_tree :: BPTree where
  "E2_tree = run_all E2_calls (BPTree_new True)"

text \<open>
  The root is branched twice; the root is marked Branched without create_children; and
  scenario E3 of the specification, followed by the fathoming of the node that is left.
\<close>

definition branch_twice_tree :: BPTree where
  "branch_twice_tree =
     run_all [CreateChildren 0 [variable_branch 0 (Fin 1) True],
              CreateChildren 0 [variable_branch 0 (Fin 2) False]] (BPTree_new True)"

definition mark_branched_tree :: BPTree where
  "mark_branched_tree = run_all [MarkProcessed 0 BRANCHED] (BPTree_new True)"

definition E3_calls :: "tree_call list" where
  "E3_calls =
     [CreateChildren 0 [variable_branch 0 (Fin 1) True, variable_branch 0 (Fin 2) False],
      SetLowerBound 1 (Fin 100), SetLowerBound 2 (Fin 50), SetGlobalUpperBound (Fin 75),
      PruneByBound, MarkProcessed 2 FATHOMED]"

text \<open>
  A node with lower bound 50 as it is when a selector takes its handle, and the same node
  after it has been marked Integer.
\<close>

definition stale_pool_before :: NodePool where
  "stale_pool_before = [set_lower_bound BPNode_root (Fin 50)]"

definition stale_pool_after :: NodePool where
  "stale_pool_after = stale_pool_before[0 := set_status (stale_pool_before ! 0) INTEGER]"

text \<open>
  Three nodes with the lower bounds 70, 50 and 60, and the same nodes after the second
  has been marked Integer.
\<close>

definition E4_pool :: NodePool where
  "E4_pool = [set_lower_bound BPNode_root (Fin 70), set_lower_bound BPNode_root (Fin 50),
              set_lower_bound BPNode_root (Fin 60)]"

definition E4_pool_stale :: NodePool where
  "E4_pool_stale = E4_pool[1 := set_status (E4_pool ! 1) INTEGER]"

text \<open>Three nodes with (depth, lower bound) = (1, 10), (2, 30) and (2, 20).\<close>

definition E5_pool :: NodePool where
  "E5_pool =
     [set_lower_bound (BPNode_child 1 0 1 (variable_branch 0 (Fin 1) True)) (Fin 10),
      set_lower_bound (BPNode_child 2 1 2 (variable_branch 1 (Fin 1) True)) (Fin 30),
      set_lower_bound (BPNode_child 3 1 2 (variable_branch 1 (Fin 1) False)) (Fin 20)]"

section \<open>Evaluation\<close>

text \<open>
  The equations that evaluate the arithmetic on given values, and the operations on a
  given node or tree.
\<close>

lemma binade_numeral:
  "binade (numeral n) y =
     (if 2 \<le> y then binade (pred_numeral n) (y / 2) + 1
      else if y < 1 then binade (pred_numeral n) (y * 2) - 1
      else 0)"
  by (simp add: numeral_eq_Suc)

lemmas double_eval = round_double_def round_even_def pow2_def binade_numeral Let_def

lemma literal_1e_6: "round_double (1 / 1000000) = Fin (4722366482869645 / 2 ^ 72)"
  by (simp add: double_eval)

lemma threshold_75:
  "d_sub (Fin 75) (round_double (1 / 1000000)) = Fin (659706967869507 / 2 ^ 43)"
  by (simp add: literal_1e_6) (simp add: double_eval)

lemmas node_eval =
  BPNode_root_def BPNode_child_def BPNode_INF_def INVALID_ID_def all_decisions_def
  can_be_explored_def is_processed_def has_children_def set_id_def set_lower_bound_def
  set_upper_bound_def set_lp_value_def set_status_def set_is_integer_def add_local_decision_def
  set_inherited_decisions_def add_child_def try_prune_by_bound_def d_ge_def d_gt_def d_min_def

lemmas tree_eval =
  allocate_def TreeStats_init_def BPTree_new_def node_def create_child_def
  create_children_def mark_processed_def update_bounds_def prune_by_bound_def
  set_incumbent_def set_global_lower_bound_def set_global_upper_bound_def Let_def

lemmas call_eval = on_node_def pointer_ok_def nth_append

lemmas selector_eval =
  pq_ordered_def explorable_def is_min_bound_def returned_def CompareByBound_def
  CompareByDepth_def BestFirst_add_node_def BestFirst_prune_def BestFirst_select_next_def
  BestFirst_empty_def BestFirst_best_bound_def DepthFirst_add_node_def DepthFirst_prune_def
  DepthFirst_select_next_def DepthFirst_empty_def DepthFirst_best_bound_def

section \<open>Pruning a node by its bound\<close>

lemma pruned_if_open_idem:
  "pruned_if_open gub (pruned_if_open gub n) = pruned_if_open gub n"
  by (simp add: pruned_if_open_def try_prune_by_bound_def can_be_explored_def)

lemma prune_by_bound_loop_effect:
  "p < length pool \<Longrightarrow>
   fst (prune_by_bound_loop gub entries (pool, st, pruned)) ! p =
     (if p \<in> snd ` set entries then pruned_if_open gub (pool ! p) else pool ! p)"
proof (induction entries arbitrary: pool st pruned)
  case Nil
  then show ?case by simp
next
  case (Cons e entries)
  obtain i q where e: "e = (i, q)" by (cases e)
  let ?pool1 = "pool[q := pruned_if_open gub (pool ! q)]"
  have step: "\<exists>st1 pruned1.
      prune_by_bound_loop gub (e # entries) (pool, st, pruned) =
      prune_by_bound_loop gub entries (?pool1, st1, pruned1)"
  proof (cases "can_be_explored (pool ! q) \<and> snd (try_prune_by_bound (pool ! q) gub)")
    case True
    then have "prune_by_bound_loop gub (e # entries) (pool, st, pruned) =
        prune_by_bound_loop gub entries
          (?pool1, st\<lparr>nodes_pruned_bound := nodes_pruned_bound st + 1,
                       nodes_open := nodes_open st - 1\<rparr>, pruned + 1)"
      by (simp add: e pruned_if_open_def)
    then show ?thesis by blast
  next
    case False
    then have "pruned_if_open gub (pool ! q) = pool ! q"
      by (auto simp: pruned_if_open_def try_prune_by_bound_def)
    then have "?pool1 = pool" by simp
    with False have "prune_by_bound_loop gub (e # entries) (pool, st, pruned) =
        prune_by_bound_loop gub entries (?pool1, st, pruned)"
      by (auto simp: e)
    then show ?thesis by blast
  qed
  then obtain st1 pruned1 where
    "prune_by_bound_loop gub (e # entries) (pool, st, pruned) =
     prune_by_bound_loop gub entries (?pool1, st1, pruned1)"
    by blast
  moreover from Cons.prems have "p < length ?pool1" by simp
  ultimately have r: "fst (prune_by_bound_loop gub (e # entries) (pool, st, pruned)) ! p =
      (if p \<in> snd ` set entries then pruned_if_open gub (?pool1 ! p) else ?pool1 ! p)"
    using Cons.IH[of ?pool1 st1 pruned1] by simp
  show ?case
  proof (cases "q = p")
    case True
    with Cons.prems have "?pool1 ! p = pruned_if_open gub (pool ! p)" by simp
    with r True show ?thesis by (simp add: e pruned_if_open_idem)
  next
    case False
    then have "?pool1 ! p = pool ! p" by simp
    with r False show ?thesis by (simp add: e)
  qed
qed

text \<open>
  C3, as the claim states it, fails: a node that is already terminal (here Branched) and
  whose lower bound is at least the global upper bound minus 1e-6 is not left unchanged.
  try_prune_by_bound returns true and overwrites the status with PrunedBound.
\<close>

theorem try_prune_by_bound_terminal_counterexample:
  "is_processed branched_node \<and>
   status_' branched_node = BRANCHED \<and>
   lower_bound_' branched_node = Fin 100 \<and>
   d_sub (Fin 100) (round_double (1 / 1000000)) = Fin (879609293424707 / 2 ^ 43) \<and>
   d_ge (lower_bound_' branched_node) (d_sub (Fin 100) (round_double (1 / 1000000))) \<and>
   snd (try_prune_by_bound branched_node (Fin 100)) = True \<and>
   status_' (fst (try_prune_by_bound branched_node (Fin 100))) = PRUNED_BOUND \<and>
   fst (try_prune_by_bound branched_node (Fin 100)) \<noteq> branched_node"
  by (simp add: branched_node_def node_eval literal_1e_6) (simp add: double_eval)

text \<open>
  C3, amended: try_prune_by_bound(g) returns true exactly when lower_bound >= g - 1e-6
  in the arithmetic of doubles, whatever the status of the node; it then sets the status
  to PrunedBound and changes nothing else, and when it returns false the node is
  unchanged. The test of the status is made by the caller BPTree::prune_by_bound: it
  sets to PrunedBound the registered nodes that are Pending and whose lower bound is at
  least the global upper bound minus 1e-6, and leaves every other node, a terminal node
  above the bound among them, as it is.
\<close>

theorem try_prune_by_bound_any_status:
  "(snd (try_prune_by_bound n g) \<longleftrightarrow>
      d_ge (lower_bound_' n) (d_sub g (round_double (1 / 1000000)))) \<and>
   (snd (try_prune_by_bound n g) \<longrightarrow> fst (try_prune_by_bound n g) = n\<lparr>status_' := PRUNED_BOUND\<rparr>) \<and>
   (\<not> snd (try_prune_by_bound n g) \<longrightarrow> fst (try_prune_by_bound n g) = n) \<and>
   (p < length (node_pool_' t) \<longrightarrow>
      node_pool_' (fst (prune_by_bound t)) ! p =
        (if p \<in> snd ` set (nodes_' t) \<and> status_' (node_pool_' t ! p) = PENDING \<and>
            d_ge (lower_bound_' (node_pool_' t ! p))
              (d_sub (global_upper_bound_' t) (round_double (1 / 1000000)))
         then (node_pool_' t ! p)\<lparr>status_' := PRUNED_BOUND\<rparr>
         else node_pool_' t ! p))"
proof -
  have "node_pool_' (fst (prune_by_bound t)) ! p =
        (if p \<in> snd ` set (nodes_' t) \<and> status_' (node_pool_' t ! p) = PENDING \<and>
            d_ge (lower_bound_' (node_pool_' t ! p))
              (d_sub (global_upper_bound_' t) (round_double (1 / 1000000)))
         then (node_pool_' t ! p)\<lparr>status_' := PRUNED_BOUND\<rparr>
         else node_pool_' t ! p)"
    if "p < length (node_pool_' t)"
    using prune_by_bound_loop_effect[OF that, of "global_upper_bound_' t" "nodes_' t"
        "stats_' t" 0]
    by (simp add: prune_by_bound_def split_beta pruned_if_open_def can_be_explored_def
        try_prune_by_bound_def)
  then show ?thesis
    by (simp add: try_prune_by_bound_def)
qed

theorem try_prune_by_bound_any_status_witness:
  "\<not> snd (try_prune_by_bound (set_lower_bound BPNode_root (Fin 100)) (Fin 150)) \<and>
   fst (try_prune_by_bound (set_lower_bound BPNode_root (Fin 100)) (Fin 150)) =
     set_lower_bound BPNode_root (Fin 100) \<and>
   snd (try_prune_by_bound (set_lower_bound BPNode_root (Fin 100)) (Fin 100)) \<and>
   fst (try_prune_by_bound (set_lower_bound BPNode_root (Fin 100)) (Fin 100)) =
     (set_lower_bound BPNode_root (Fin 100))\<lparr>status_' := PRUNED_BOUND\<rparr> \<and>
   round_double (999999 / 1000000) = Fin (9007190247541737 / 2 ^ 53) \<and>
   d_sub (Fin 1) (round_double (1 / 1000000)) = Fin (9007190247541737 / 2 ^ 53) \<and>
   snd (try_prune_by_bound (set_lower_bound BPNode_root (round_double (999999 / 1000000))) (Fin 1)) \<and>
   map status_' (node_pool_' guarded_tree) = [BRANCHED, PENDING, PENDING] \<and>
   map lower_bound_' (node_pool_' guarded_tree) = [Fin 100, Fin 100, Fin 50] \<and>
   global_upper_bound_' guarded_tree = Fin 75 \<and>
   node_pool_' (fst (prune_by_bound guarded_tree)) ! 0 = node_pool_' guarded_tree ! 0 \<and>
   node_pool_' (fst (prune_by_bound guarded_tree)) ! 1 =
     (node_pool_' guarded_tree ! 1)\<lparr>status_' := PRUNED_BOUND\<rparr> \<and>
   node_pool_' (fst (prune_by_bound guarded_tree)) ! 2 = node_pool_' guarded_tree ! 2"
proof -
  have r: "round_double (999999 / 1000000) = Fin (9007190247541737 / 2 ^ 53)"
    "d_sub (Fin 1) (round_double (1 / 1000000)) = Fin (9007190247541737 / 2 ^ 53)"
    "d_sub (Fin 150) (round_double (1 / 1000000)) = Fin (1319413944535107 / 2 ^ 43)"
    "d_sub (Fin 100) (round_double (1 / 1000000)) = Fin (879609293424707 / 2 ^ 43)"
    "d_sub (Fin 75) (round_double (1 / 1000000)) = Fin (659706967869507 / 2 ^ 43)"
    by (simp_all add: literal_1e_6) (simp_all add: double_eval)
  have a: "\<not> d_ge (lower_bound_' (set_lower_bound BPNode_root (Fin 100)))
               (d_sub (Fin 150) (round_double (1 / 1000000)))"
    "d_ge (lower_bound_' (set_lower_bound BPNode_root (Fin 100)))
          (d_sub (Fin 100) (round_double (1 / 1000000)))"
    "d_ge (lower_bound_' (set_lower_bound BPNode_root (round_double (999999 / 1000000))))
          (d_sub (Fin 1) (round_double (1 / 1000000)))"
    by (simp_all add: r set_lower_bound_def d_ge_def)
  have g: "map status_' (node_pool_' guarded_tree) = [BRANCHED, PENDING, PENDING]"
    "map lower_bound_' (node_pool_' guarded_tree) = [Fin 100, Fin 100, Fin 50]"
    "global_upper_bound_' guarded_tree = Fin 75"
    "nodes_' guarded_tree = [(0, 0), (1, 1), (2, 2)]"
    by (simp_all add: guarded_tree_def run_all_def call_eval tree_eval node_eval)
  from g(1,2) have n: "length (node_pool_' guarded_tree) = 3"
    "status_' (node_pool_' guarded_tree ! 0) = BRANCHED"
    "status_' (node_pool_' guarded_tree ! 1) = PENDING"
    "status_' (node_pool_' guarded_tree ! 2) = PENDING"
    "lower_bound_' (node_pool_' guarded_tree ! 0) = Fin 100"
    "lower_bound_' (node_pool_' guarded_tree ! 1) = Fin 100"
    "lower_bound_' (node_pool_' guarded_tree ! 2) = Fin 50"
    by (auto simp: map_eq_Cons_conv)
  show ?thesis
    using a r g n
      try_prune_by_bound_any_status[of "set_lower_bound BPNode_root (Fin 100)" "Fin 150" 0
        guarded_tree]
      try_prune_by_bound_any_status[of "set_lower_bound BPNode_root (Fin 100)" "Fin 100" 1
        guarded_tree]
      try_prune_by_bound_any_status[of
        "set_lower_bound BPNode_root (round_double (999999 / 1000000))" "Fin 1" 2 guarded_tree]
    by (simp add: d_ge_def)
qed

section \<open>The gap of a node\<close>

lemma round_double_not_NaN: "round_double x \<noteq> NaN"
  by (simp add: round_double_def Let_def)

text \<open>
  C9: gap() is +infinity when the upper bound is +infinity or the lower bound is
  -infinity; when the upper bound is 0 it is 0 if the lower bound is 0 and +infinity
  otherwise; and when both bounds are finite and the upper bound is not 0 it is
  (upper_bound - lower_bound) / |upper_bound| in the arithmetic of doubles: the
  difference rounded to a double and divided by |upper_bound|, the quotient rounded to a
  double, and the infinity of the difference when the difference is out of range. It is
  the real number (upper_bound - lower_bound) / |upper_bound| when neither operation
  rounds.
\<close>

theorem gap_cases:
  "(upper_bound_' n = PosInf \<or> lower_bound_' n = NegInf \<longrightarrow> gap n = PosInf) \<and>
   (upper_bound_' n = Fin 0 \<longrightarrow> gap n = (if lower_bound_' n = Fin 0 then Fin 0 else PosInf)) \<and>
   (upper_bound_' n = Fin u \<and> lower_bound_' n = Fin l \<and> u \<noteq> 0 \<longrightarrow>
      gap n = d_div (d_sub (upper_bound_' n) (lower_bound_' n)) (d_abs (upper_bound_' n)) \<and>
      gap n = (case round_double (u - l) of
                 Fin w \<Rightarrow> round_double (w / \<bar>u\<bar>)
               | NaN \<Rightarrow> NaN | NegInf \<Rightarrow> NegInf | PosInf \<Rightarrow> PosInf) \<and>
      (round_double (u - l) = Fin (u - l) \<and>
       round_double ((u - l) / \<bar>u\<bar>) = Fin ((u - l) / \<bar>u\<bar>) \<longrightarrow>
         gap n = Fin ((u - l) / \<bar>u\<bar>)))"
proof -
  have 3: "gap n = d_div (d_sub (Fin u) (Fin l)) (d_abs (Fin u)) \<and>
      gap n = (case round_double (u - l) of
                 Fin w \<Rightarrow> round_double (w / \<bar>u\<bar>)
               | NaN \<Rightarrow> NaN | NegInf \<Rightarrow> NegInf | PosInf \<Rightarrow> PosInf)"
    if "upper_bound_' n = Fin u" "lower_bound_' n = Fin l" "u \<noteq> 0"
    using that by (cases "round_double (u - l)") (simp_all add: gap_def BPNode_INF_def)
  have 12: "(upper_bound_' n = PosInf \<or> lower_bound_' n = NegInf \<longrightarrow> gap n = PosInf) \<and>
   (upper_bound_' n = Fin 0 \<longrightarrow> gap n = (if lower_bound_' n = Fin 0 then Fin 0 else PosInf))"
    by (cases "lower_bound_' n"; cases "upper_bound_' n") (auto simp: gap_def BPNode_INF_def)
  from 3 12 show ?thesis by auto
qed

theorem gap_cases_witness:
  "gap BPNode_root = PosInf \<and>
   gap (set_upper_bound (set_lower_bound BPNode_root (Fin 0)) (Fin 0)) = Fin 0 \<and>
   gap (set_upper_bound (set_lower_bound BPNode_root (Fin 5)) (Fin 0)) = PosInf \<and>
   gap (set_upper_bound (set_lower_bound BPNode_root (Fin 50)) (Fin 100)) = Fin (1 / 2) \<and>
   gap (set_upper_bound (set_lower_bound BPNode_root (Fin 90)) (Fin 100)) =
     Fin (3602879701896397 / 2 ^ 55) \<and>
   gap (set_upper_bound (set_lower_bound BPNode_root (Fin (- (2 ^ 1023)))) (Fin (2 ^ 1023))) =
     PosInf"
proof -
  have r: "round_double (100 - 50) = Fin (100 - 50)"
    "round_double ((100 - 50) / \<bar>100\<bar>) = Fin ((100 - 50) / \<bar>100\<bar>)"
    "round_double (100 - 90) = Fin 10"
    "round_double (10 / \<bar>100\<bar>) = Fin (3602879701896397 / 2 ^ 55)"
    "round_double (2 ^ 1023 - - (2 ^ 1023)) = PosInf"
    by (simp_all add: double_eval)
  show ?thesis
    using r gap_cases[of BPNode_root 0 0]
      gap_cases[of "set_upper_bound (set_lower_bound BPNode_root (Fin 0)) (Fin 0)" 0 0]
      gap_cases[of "set_upper_bound (set_lower_bound BPNode_root (Fin 5)) (Fin 0)" 0 5]
      gap_cases[of "set_upper_bound (set_lower_bound BPNode_root (Fin 50)) (Fin 100)" 100 50]
      gap_cases[of "set_upper_bound (set_lower_bound BPNode_root (Fin 90)) (Fin 100)" 100 90]
      gap_cases[of "set_upper_bound (set_lower_bound BPNode_root (Fin (- (2 ^ 1023)))) (Fin (2 ^ 1023))"
        "2 ^ 1023" "- (2 ^ 1023)"]
    by (simp add: BPNode_root_def BPNode_INF_def set_upper_bound_def set_lower_bound_def)
qed

section \<open>The global upper bound\<close>

text \<open>
  C8: update_bounds(node) returns true if and only if the node is integer and its
  lp_value is strictly less than the global upper bound; it then sets the global upper
  bound and stats.best_upper_bound to the lp_value; when it returns false the tree is
  unchanged.
\<close>

theorem update_bounds_improves_iff:
  "(snd (update_bounds t p) \<longleftrightarrow>
      is_integer_' (node_pool_' t ! p) \<and>
      d_lt (lp_value_' (node_pool_' t ! p)) (global_upper_bound_' t)) \<and>
   (snd (update_bounds t p) \<longrightarrow>
      global_upper_bound_' (fst (update_bounds t p)) = lp_value_' (node_pool_' t ! p) \<and>
      best_upper_bound (stats_' (fst (update_bounds t p))) = lp_value_' (node_pool_' t ! p)) \<and>
   (\<not> snd (update_bounds t p) \<longrightarrow> fst (update_bounds t p) = t)"
  by (simp add: update_bounds_def Let_def)

theorem update_bounds_improves_iff_witness:
  "snd (update_bounds integer_root_tree 0) \<and>
   global_upper_bound_' (fst (update_bounds integer_root_tree 0)) = Fin 100 \<and>
   best_upper_bound (stats_' (fst (update_bounds integer_root_tree 0))) = Fin 100 \<and>
   \<not> snd (update_bounds (BPTree_new True) 0) \<and>
   fst (update_bounds (BPTree_new True) 0) = BPTree_new True"
proof -
  have a: "is_integer_' (node_pool_' integer_root_tree ! 0) \<and>
           lp_value_' (node_pool_' integer_root_tree ! 0) = Fin 100 \<and>
           global_upper_bound_' integer_root_tree = PosInf"
    by (simp add: integer_root_tree_def on_node_def node_eval tree_eval)
  have b: "\<not> is_integer_' (node_pool_' (BPTree_new True) ! 0)"
    by (simp add: node_eval tree_eval)
  show ?thesis
    using a b update_bounds_improves_iff[of integer_root_tree 0]
      update_bounds_improves_iff[of "BPTree_new True" 0]
    by simp
qed

text \<open>
  C10: set_incumbent with the null pointer sets the incumbent to null and changes
  nothing else: the global upper bound, the statistics, the pool and every other member
  of the tree are as before.
\<close>

theorem set_incumbent_null:
  "set_incumbent t None = t\<lparr>incumbent_' := None\<rparr> \<and>
   incumbent_' (set_incumbent t None) = None \<and>
   global_upper_bound_' (set_incumbent t None) = global_upper_bound_' t \<and>
   stats_' (set_incumbent t None) = stats_' t"
  by (simp add: set_incumbent_def)

section \<open>The path to the root\<close>

text \<open>
  C4 says that get_path_to_root returns the empty sequence for an id that is not
  registered. The code pushes the id before it looks it up: for every unregistered id
  other than INVALID_ID the result is the sequence that holds this id alone.
\<close>

theorem get_path_to_root_unknown_id:
  "node t i = None \<and> i \<noteq> INVALID_ID \<longrightarrow> get_path_to_root t i = Some [i]"
  by (simp add: node_def get_path_to_root_def get_path_loop.simps)

theorem get_path_to_root_unknown_id_witness:
  "node (BPTree_new True) 999 = None \<and> get_path_to_root (BPTree_new True) 999 = Some [999]"
proof -
  have "node (BPTree_new True) 999 = None \<and> 999 \<noteq> INVALID_ID"
    by (simp add: node_eval tree_eval)
  then show ?thesis
    using get_path_to_root_unknown_id[of "BPTree_new True" 999] by simp
qed

section \<open>The priority queues of the selectors\<close>

lemma pq_ordered_Nil: "pq_ordered cmp []"
  by (simp add: pq_ordered_def)

lemma mset_pq_push: "mset (pq_push cmp q x) = add_mset x (mset q)"
  by (induction q) auto

lemma set_pq_push: "set (pq_push cmp q x) = insert x (set q)"
  by (induction q) auto

lemma pq_push_ordered:
  assumes so: "strict_order cmp"
  shows "pq_ordered cmp q \<Longrightarrow> pq_ordered cmp (pq_push cmp q x)"
proof (induction q)
  case Nil
  then show ?case by (simp add: pq_ordered_def)
next
  case (Cons y ys)
  show ?case
  proof (cases "cmp y x")
    case True
    have "\<not> cmp x z" if "z \<in> set (y # ys)" for z
    proof
      assume "cmp x z"
      with True have "cmp y z" using so unfolding strict_order_def by blast
      moreover have "\<not> cmp y y" using so unfolding strict_order_def by blast
      ultimately show False using that Cons.prems by (auto simp: pq_ordered_def)
    qed
    with True Cons.prems show ?thesis by (simp add: pq_ordered_def)
  next
    case False
    with Cons show ?thesis by (auto simp: pq_ordered_def set_pq_push)
  qed
qed

lemma mset_push_all: "mset (push_all cmp q ns) = mset q + mset ns"
  by (induction ns arbitrary: q) (auto simp: mset_pq_push)

lemma set_push_all: "set (push_all cmp q ns) = set q \<union> set ns"
  by (induction ns arbitrary: q) (auto simp: set_pq_push)

lemma push_all_ordered:
  assumes so: "strict_order cmp"
  shows "pq_ordered cmp q \<Longrightarrow> pq_ordered cmp (push_all cmp q ns)"
proof (induction ns arbitrary: q)
  case Nil
  then show ?case by simp
next
  case (Cons n ns)
  from Cons.prems have "pq_ordered cmp (pq_push cmp q n)"
    using pq_push_ordered[OF so] by blast
  then show ?case using Cons.IH by simp
qed

lemma pq_push_behind: "\<forall>y\<in>set q. \<not> cmp y x \<Longrightarrow> pq_push cmp q x = q @ [x]"
  by (induction q) auto

lemma push_all_ordered_id: "pq_ordered cmp (q @ ns) \<Longrightarrow> push_all cmp q ns = q @ ns"
proof (induction ns arbitrary: q)
  case Nil
  then show ?case by simp
next
  case (Cons n ns)
  from Cons.prems have "\<forall>y\<in>set q. \<not> cmp y n"
    by (auto simp: pq_ordered_def sorted_wrt_append)
  then have "pq_push cmp q n = q @ [n]" by (rule pq_push_behind)
  moreover from Cons.prems have "pq_ordered cmp ((q @ [n]) @ ns)" by simp
  ultimately show ?case using Cons.IH[of "q @ [n]"] by simp
qed

lemma prune_drain_eq:
  "prune_drain pool q valid removed =
     (valid @ explorable pool q,
      removed + length (filter (\<lambda>n. \<not> can_be_explored (pool ! n)) q))"
  by (induction q arbitrary: valid removed) (auto simp: explorable_def)

lemma explorable_idem: "explorable pool (explorable pool q) = explorable pool q"
  by (simp add: explorable_def)

lemma explorable_all: "\<forall>n\<in>set q. can_be_explored (pool ! n) \<Longrightarrow> explorable pool q = q"
  by (simp add: explorable_def)

lemma select_repeat_sorted_queue:
  assumes sel: "\<And>q. sel q = (case push_all cmp [] (explorable pool q) of
                          [] \<Rightarrow> ([], None) | n # q' \<Rightarrow> (q', Some n))"
    and ord: "pq_ordered cmp q" and ex: "\<forall>n\<in>set q. can_be_explored (pool ! n)"
  shows "select_repeat sel k q = (drop k q, map Some (take k q) @ replicate (k - length q) None)"
  using ord ex
proof (induction k arbitrary: q)
  case 0
  then show ?case by simp
next
  case (Suc k)
  have pq: "push_all cmp [] (explorable pool q) = q"
    using push_all_ordered_id[of cmp "[]" q] Suc.prems by (simp add: explorable_all)
  show ?case
  proof (cases q)
    case Nil
    with Suc.IH[of "[]"] pq show ?thesis
      by (simp add: sel pq_ordered_def explorable_def replicate_append_same)
  next
    case (Cons n q')
    with Suc.prems have "pq_ordered cmp q'" "\<forall>n\<in>set q'. can_be_explored (pool ! n)"
      by (auto simp: pq_ordered_def)
    from Suc.IH[OF this] pq Cons show ?thesis
      by (simp add: sel)
  qed
qed

lemma select_repeat_eq:
  assumes sel: "\<And>q. sel q = (case push_all cmp [] (explorable pool q) of
                          [] \<Rightarrow> ([], None) | n # q' \<Rightarrow> (q', Some n))"
    and so: "strict_order cmp"
  shows "select_repeat sel (Suc k) q =
     (drop (Suc k) (push_all cmp [] (explorable pool q)),
      map Some (take (Suc k) (push_all cmp [] (explorable pool q))) @
      replicate (Suc k - length (explorable pool q)) None)"
proof -
  let ?S = "push_all cmp [] (explorable pool q)"
  have ord: "pq_ordered cmp ?S"
    using push_all_ordered[OF so pq_ordered_Nil] by blast
  have "mset ?S = mset (explorable pool q)" by (simp add: mset_push_all)
  then have len: "length ?S = length (explorable pool q)" and "set ?S = set (explorable pool q)"
    by (metis size_mset, metis set_mset_mset)
  then have ex: "\<forall>n\<in>set ?S. can_be_explored (pool ! n)" by (simp add: explorable_def)
  have S2: "push_all cmp [] (explorable pool ?S) = ?S"
    using push_all_ordered_id[of cmp "[]" ?S] ord ex by (simp add: explorable_all)
  have "select_repeat sel (Suc k) q = select_repeat sel (Suc k) ?S"
    by (simp add: sel S2)
  also have "\<dots> = (drop (Suc k) ?S, map Some (take (Suc k) ?S) @ replicate (Suc k - length ?S) None)"
    by (rule select_repeat_sorted_queue[OF sel ord ex])
  finally show ?thesis by (simp only: len)
qed

lemma returned_Some_None: "returned (map Some xs @ replicate m None) = xs"
  by (simp add: returned_def filter_map comp_def)

lemma d_lt_trans: "d_lt a b \<Longrightarrow> d_lt b c \<Longrightarrow> d_lt a c"
  by (cases a; cases b; cases c) auto

lemma d_lt_asym: "d_lt a b \<Longrightarrow> \<not> d_lt b a"
  by (cases a; cases b) auto

lemma d_le_refl: "a \<noteq> NaN \<Longrightarrow> d_le a a"
  by (cases a) auto

lemma d_le_trans: "d_le a b \<Longrightarrow> d_le b c \<Longrightarrow> d_le a c"
  by (cases a; cases b; cases c) auto

lemma not_d_lt_d_le: "a \<noteq> NaN \<Longrightarrow> b \<noteq> NaN \<Longrightarrow> \<not> d_lt b a \<Longrightarrow> d_le a b"
  by (cases a; cases b) auto

lemma d_lt_d_le: "d_lt a b \<Longrightarrow> d_le a b"
  by (cases a; cases b) auto

lemma d_le_PosInf: "a \<noteq> NaN \<Longrightarrow> d_le a PosInf"
  by (cases a) auto

lemma PosInf_d_le: "d_le PosInf a \<Longrightarrow> a = PosInf"
  by (cases a) auto

lemma strict_order_CompareByBound: "strict_order (CompareByBound pool)"
  unfolding strict_order_def CompareByBound_def d_gt_def
  by (blast intro: d_lt_trans dest: d_lt_asym)

lemma strict_order_CompareByDepth: "strict_order (CompareByDepth pool)"
proof -
  have "CompareByDepth pool a c" if "CompareByDepth pool a b" "CompareByDepth pool b c" for a b c
    using that d_lt_trans[of "lower_bound_' (pool ! c)" "lower_bound_' (pool ! b)" "lower_bound_' (pool ! a)"]
    by (auto simp: CompareByDepth_def d_gt_def split: if_splits)
  moreover have "\<not> CompareByDepth pool b a" if "CompareByDepth pool a b" for a b
    using that d_lt_asym[of "lower_bound_' (pool ! b)" "lower_bound_' (pool ! a)"]
    by (auto simp: CompareByDepth_def d_gt_def split: if_splits)
  ultimately show ?thesis unfolding strict_order_def by blast
qed

lemma BestFirst_prune_eq:
  "fst (BestFirst_prune pool q) = push_all (CompareByBound pool) [] (explorable pool q)"
  by (simp add: BestFirst_prune_def prune_drain_eq)

lemma DepthFirst_prune_eq:
  "fst (DepthFirst_prune pool q) = push_all (CompareByDepth pool) [] (explorable pool q)"
  by (simp add: DepthFirst_prune_def prune_drain_eq)

lemma BestFirst_select_next_eq:
  "BestFirst_select_next pool q =
     (case push_all (CompareByBound pool) [] (explorable pool q) of
        [] \<Rightarrow> ([], None) | n # q' \<Rightarrow> (q', Some n))"
  by (simp add: BestFirst_select_next_def BestFirst_prune_eq)

lemma DepthFirst_select_next_eq:
  "DepthFirst_select_next pool q =
     (case push_all (CompareByDepth pool) [] (explorable pool q) of
        [] \<Rightarrow> ([], None) | n # q' \<Rightarrow> (q', Some n))"
  by (simp add: DepthFirst_select_next_def DepthFirst_prune_eq)

lemma select_repeat_returned:
  assumes sel: "\<And>q. sel q = (case push_all cmp [] (explorable pool q) of
                          [] \<Rightarrow> ([], None) | n # q' \<Rightarrow> (q', Some n))"
    and so: "strict_order cmp"
  shows "returned (snd (select_repeat sel k q)) = take k (push_all cmp [] (explorable pool q))"
    and "0 < k \<Longrightarrow> fst (select_repeat sel k q) = drop k (push_all cmp [] (explorable pool q))"
proof -
  show "returned (snd (select_repeat sel k q)) = take k (push_all cmp [] (explorable pool q))"
  proof (cases k)
    case 0
    then show ?thesis by (simp add: returned_def)
  next
    case (Suc j)
    then show ?thesis
      by (simp only: select_repeat_eq[OF sel so] snd_conv returned_Some_None)
  qed
  show "fst (select_repeat sel k q) = drop k (push_all cmp [] (explorable pool q))" if "0 < k"
  proof -
    from that obtain j where "k = Suc j" by (cases k) auto
    then show ?thesis
      by (simp only: select_repeat_eq[OF sel so] fst_conv)
  qed
qed

lemma sorted_wrt_take: "sorted_wrt R xs \<Longrightarrow> sorted_wrt R (take k xs)"
  by (metis append_take_drop_id sorted_wrt_append)

text \<open>
  C6: k calls of select_next on a BestFirstSelector, with no other call between them,
  return nodes whose lower bounds never decrease: no node has a lower bound less than the
  lower bound of a node returned before it, and when no bound is a NaN the bounds are in
  the order <=. The nodes returned are explorable nodes of the queue, they are all of
  them once k reaches the size of the queue, and then the selector is empty and its
  best_bound is +infinity.
\<close>

theorem BestFirst_select_order:
  "sorted_wrt (\<lambda>a b. \<not> d_lt (lower_bound_' (pool ! b)) (lower_bound_' (pool ! a)))
     (returned (snd (select_repeat (BestFirst_select_next pool) k queue))) \<and>
   ((\<forall>n\<in>set queue. lower_bound_' (pool ! n) \<noteq> NaN) \<longrightarrow>
      sorted_wrt (\<lambda>a b. d_le (lower_bound_' (pool ! a)) (lower_bound_' (pool ! b)))
        (returned (snd (select_repeat (BestFirst_select_next pool) k queue)))) \<and>
   mset (returned (snd (select_repeat (BestFirst_select_next pool) k queue)))
     \<subseteq># mset (explorable pool queue) \<and>
   (length queue \<le> k \<longrightarrow>
      mset (returned (snd (select_repeat (BestFirst_select_next pool) k queue))) =
        mset (explorable pool queue) \<and>
      BestFirst_empty (fst (select_repeat (BestFirst_select_next pool) k queue)) \<and>
      BestFirst_best_bound pool (fst (select_repeat (BestFirst_select_next pool) k queue)) = PosInf)"
proof -
  let ?cmp = "CompareByBound pool"
  let ?S = "push_all ?cmp [] (explorable pool queue)"
  let ?rs = "returned (snd (select_repeat (BestFirst_select_next pool) k queue))"
  have rs: "?rs = take k ?S"
    by (rule select_repeat_returned(1)[OF BestFirst_select_next_eq strict_order_CompareByBound])
  have ord: "pq_ordered ?cmp ?S"
    using push_all_ordered[OF strict_order_CompareByBound pq_ordered_Nil] by blast
  have mS: "mset ?S = mset (explorable pool queue)" by (simp add: mset_push_all)
  then have sS: "set ?S = set (explorable pool queue)" and lS: "length ?S = length (explorable pool queue)"
    by (metis set_mset_mset, metis size_mset)
  have 1: "sorted_wrt (\<lambda>a b. \<not> d_lt (lower_bound_' (pool ! b)) (lower_bound_' (pool ! a))) ?rs"
    using ord unfolding rs pq_ordered_def CompareByBound_def d_gt_def by (rule sorted_wrt_take)
  have 2: "sorted_wrt (\<lambda>a b. d_le (lower_bound_' (pool ! a)) (lower_bound_' (pool ! b))) ?rs"
    if "\<forall>n\<in>set queue. lower_bound_' (pool ! n) \<noteq> NaN"
  proof -
    have "set ?rs \<subseteq> set queue"
      unfolding rs using sS set_take_subset[of k ?S] by (auto simp: explorable_def)
    with that have "\<forall>n\<in>set ?rs. lower_bound_' (pool ! n) \<noteq> NaN" by blast
    with 1 show ?thesis
      by (auto intro!: sorted_wrt_mono_rel[rotated, OF 1] not_d_lt_d_le)
  qed
  have 3: "mset ?rs \<subseteq># mset (explorable pool queue)"
    unfolding rs by (metis mS append_take_drop_id mset_append mset_subset_eq_add_left)
  have 4: "mset ?rs = mset (explorable pool queue) \<and>
      BestFirst_empty (fst (select_repeat (BestFirst_select_next pool) k queue)) \<and>
      BestFirst_best_bound pool (fst (select_repeat (BestFirst_select_next pool) k queue)) = PosInf"
    if "length queue \<le> k"
  proof (cases k)
    case 0
    with that show ?thesis
      by (simp add: returned_def explorable_def BestFirst_empty_def BestFirst_best_bound_def)
  next
    case (Suc j)
    have "length ?S \<le> k" using that lS by (simp add: explorable_def le_trans[OF length_filter_le])
    moreover have "fst (select_repeat (BestFirst_select_next pool) k queue) = drop k ?S"
      using select_repeat_returned(2)[OF BestFirst_select_next_eq strict_order_CompareByBound, of k pool queue] Suc
      by simp
    ultimately show ?thesis
      by (simp add: rs mS BestFirst_empty_def BestFirst_best_bound_def)
  qed
  from 1 2 3 4 show ?thesis by blast
qed

theorem BestFirst_select_order_witness:
  "BestFirst_add_nodes E4_pool [] [Some 0, Some 1, Some 2] = [1, 2, 0] \<and>
   select_repeat (BestFirst_select_next E4_pool) 3 [1, 2, 0] = ([], [Some 1, Some 2, Some 0]) \<and>
   map (\<lambda>n. lower_bound_' (E4_pool ! n)) [1, 2, 0] = [Fin 50, Fin 60, Fin 70] \<and>
   sorted_wrt (\<lambda>a b. d_le (lower_bound_' (E4_pool ! a)) (lower_bound_' (E4_pool ! b)))
     (returned (snd (select_repeat (BestFirst_select_next E4_pool) 3 [1, 2, 0]))) \<and>
   BestFirst_empty (fst (select_repeat (BestFirst_select_next E4_pool) 3 [1, 2, 0])) \<and>
   BestFirst_best_bound E4_pool (fst (select_repeat (BestFirst_select_next E4_pool) 3 [1, 2, 0])) = PosInf"
proof -
  have h: "\<forall>n\<in>set [1, 2, 0]. lower_bound_' (E4_pool ! n) \<noteq> NaN"
    by (simp add: E4_pool_def node_eval)
  have e: "BestFirst_add_nodes E4_pool [] [Some 0, Some 1, Some 2] = [1, 2, 0] \<and>
      select_repeat (BestFirst_select_next E4_pool) 3 [1, 2, 0] = ([], [Some 1, Some 2, Some 0]) \<and>
      map (\<lambda>n. lower_bound_' (E4_pool ! n)) [1, 2, 0] = [Fin 50, Fin 60, Fin 70]"
    by (simp add: E4_pool_def node_eval selector_eval numeral_3_eq_3)
  from BestFirst_select_order[of E4_pool 3 "[1, 2, 0]"] h e show ?thesis by simp
qed

text \<open>
  C7: k calls of select_next on a DepthFirstSelector, with no other call between them,
  return the nodes by depth descending, and nodes of the same depth by lower bound
  ascending: a node returned later is less deep, or as deep with a lower bound that is
  not less (that is greater or equal, when no bound is a NaN). The nodes returned are
  explorable nodes of the queue, and all of them once k reaches the size of the queue.
\<close>

theorem DepthFirst_select_order:
  "sorted_wrt (\<lambda>a b. depth_' (pool ! b) < depth_' (pool ! a) \<or>
                  depth_' (pool ! a) = depth_' (pool ! b) \<and>
                  \<not> d_lt (lower_bound_' (pool ! b)) (lower_bound_' (pool ! a)))
     (returned (snd (select_repeat (DepthFirst_select_next pool) k queue))) \<and>
   ((\<forall>n\<in>set queue. lower_bound_' (pool ! n) \<noteq> NaN) \<longrightarrow>
      sorted_wrt (\<lambda>a b. depth_' (pool ! b) < depth_' (pool ! a) \<or>
                     depth_' (pool ! a) = depth_' (pool ! b) \<and>
                     d_le (lower_bound_' (pool ! a)) (lower_bound_' (pool ! b)))
        (returned (snd (select_repeat (DepthFirst_select_next pool) k queue)))) \<and>
   mset (returned (snd (select_repeat (DepthFirst_select_next pool) k queue)))
     \<subseteq># mset (explorable pool queue) \<and>
   (length queue \<le> k \<longrightarrow>
      mset (returned (snd (select_repeat (DepthFirst_select_next pool) k queue))) =
        mset (explorable pool queue) \<and>
      DepthFirst_empty (fst (select_repeat (DepthFirst_select_next pool) k queue)))"
proof -
  let ?cmp = "CompareByDepth pool"
  let ?S = "push_all ?cmp [] (explorable pool queue)"
  let ?rs = "returned (snd (select_repeat (DepthFirst_select_next pool) k queue))"
  let ?R = "\<lambda>a b. depth_' (pool ! b) < depth_' (pool ! a) \<or>
                  depth_' (pool ! a) = depth_' (pool ! b) \<and>
                  \<not> d_lt (lower_bound_' (pool ! b)) (lower_bound_' (pool ! a))"
  have rs: "?rs = take k ?S"
    by (rule select_repeat_returned(1)[OF DepthFirst_select_next_eq strict_order_CompareByDepth])
  have ord: "pq_ordered ?cmp ?S"
    using push_all_ordered[OF strict_order_CompareByDepth pq_ordered_Nil] by blast
  have mS: "mset ?S = mset (explorable pool queue)" by (simp add: mset_push_all)
  then have sS: "set ?S = set (explorable pool queue)" and lS: "length ?S = length (explorable pool queue)"
    by (metis set_mset_mset, metis size_mset)
  have "sorted_wrt (\<lambda>a b. \<not> ?cmp a b) ?rs"
    using ord unfolding rs pq_ordered_def by (rule sorted_wrt_take)
  then have 1: "sorted_wrt ?R ?rs"
    by (rule sorted_wrt_mono_rel[rotated]) (auto simp: CompareByDepth_def d_gt_def split: if_splits)
  have 2: "sorted_wrt (\<lambda>a b. depth_' (pool ! b) < depth_' (pool ! a) \<or>
                     depth_' (pool ! a) = depth_' (pool ! b) \<and>
                     d_le (lower_bound_' (pool ! a)) (lower_bound_' (pool ! b))) ?rs"
    if "\<forall>n\<in>set queue. lower_bound_' (pool ! n) \<noteq> NaN"
  proof -
    have "set ?rs \<subseteq> set queue"
      unfolding rs using sS set_take_subset[of k ?S] by (auto simp: explorable_def)
    with that have "\<forall>n\<in>set ?rs. lower_bound_' (pool ! n) \<noteq> NaN" by blast
    then show ?thesis
      by (intro sorted_wrt_mono_rel[rotated, OF 1]) (auto intro: not_d_lt_d_le)
  qed
  have 3: "mset ?rs \<subseteq># mset (explorable pool queue)"
    unfolding rs by (metis mS append_take_drop_id mset_append mset_subset_eq_add_left)
  have 4: "mset ?rs = mset (explorable pool queue) \<and>
      DepthFirst_empty (fst (select_repeat (DepthFirst_select_next pool) k queue))"
    if "length queue \<le> k"
  proof (cases k)
    case 0
    with that show ?thesis
      by (simp add: returned_def explorable_def DepthFirst_empty_def)
  next
    case (Suc j)
    have "length ?S \<le> k" using that lS by (simp add: explorable_def le_trans[OF length_filter_le])
    moreover have "fst (select_repeat (DepthFirst_select_next pool) k queue) = drop k ?S"
      using select_repeat_returned(2)[OF DepthFirst_select_next_eq strict_order_CompareByDepth, of k pool queue] Suc
      by simp
    ultimately show ?thesis
      by (simp add: rs mS DepthFirst_empty_def)
  qed
  from 1 2 3 4 show ?thesis by blast
qed

theorem DepthFirst_select_order_witness:
  "DepthFirst_add_nodes E5_pool [] [Some 0, Some 1, Some 2] = [2, 1, 0] \<and>
   select_repeat (DepthFirst_select_next E5_pool) 3 [2, 1, 0] = ([], [Some 2, Some 1, Some 0]) \<and>
   map (\<lambda>n. (depth_' (E5_pool ! n), lower_bound_' (E5_pool ! n))) [2, 1, 0] =
     [(2, Fin 20), (2, Fin 30), (1, Fin 10)] \<and>
   sorted_wrt (\<lambda>a b. depth_' (E5_pool ! b) < depth_' (E5_pool ! a) \<or>
                     depth_' (E5_pool ! a) = depth_' (E5_pool ! b) \<and>
                     d_le (lower_bound_' (E5_pool ! a)) (lower_bound_' (E5_pool ! b)))
     (returned (snd (select_repeat (DepthFirst_select_next E5_pool) 3 [2, 1, 0]))) \<and>
   DepthFirst_empty (fst (select_repeat (DepthFirst_select_next E5_pool) 3 [2, 1, 0]))"
proof -
  have h: "\<forall>n\<in>set [2, 1, 0]. lower_bound_' (E5_pool ! n) \<noteq> NaN"
    by (simp add: E5_pool_def node_eval)
  have e: "DepthFirst_add_nodes E5_pool [] [Some 0, Some 1, Some 2] = [2, 1, 0] \<and>
      select_repeat (DepthFirst_select_next E5_pool) 3 [2, 1, 0] = ([], [Some 2, Some 1, Some 0]) \<and>
      map (\<lambda>n. (depth_' (E5_pool ! n), lower_bound_' (E5_pool ! n))) [2, 1, 0] =
        [(2, Fin 20), (2, Fin 30), (1, Fin 10)]"
    by (simp add: E5_pool_def node_eval selector_eval numeral_3_eq_3)
  from DepthFirst_select_order[of E5_pool 3 "[2, 1, 0]"] h e show ?thesis by simp
qed

lemma is_min_bound_cong: "set hs = set hs' \<Longrightarrow> is_min_bound pool hs m = is_min_bound pool hs' m"
  by (auto simp: is_min_bound_def list_all_iff list_ex_iff)

lemma BestFirst_best_bound_min:
  assumes "pq_ordered (CompareByBound pool) q" "\<forall>n\<in>set q. lower_bound_' (pool ! n) \<noteq> NaN"
  shows "is_min_bound pool q (BestFirst_best_bound pool q)"
proof (cases q)
  case Nil
  then show ?thesis by (simp add: is_min_bound_def BestFirst_best_bound_def)
next
  case (Cons n q')
  have "d_le (lower_bound_' (pool ! n)) (lower_bound_' (pool ! h))" if "h \<in> set q" for h
  proof (cases "h = n")
    case True
    then show ?thesis using assms(2) that by (simp add: d_le_refl)
  next
    case False
    with that Cons have "h \<in> set q'" by simp
    with assms(1) Cons have "\<not> d_lt (lower_bound_' (pool ! h)) (lower_bound_' (pool ! n))"
      by (auto simp: pq_ordered_def CompareByBound_def d_gt_def)
    then show ?thesis using assms(2) that Cons by (intro not_d_lt_d_le) auto
  qed
  then show ?thesis using Cons
    by (auto simp: is_min_bound_def BestFirst_best_bound_def list_all_iff list_ex_iff)
qed

lemma best_bound_loop_min:
  assumes "\<forall>n\<in>set q. lower_bound_' (pool ! n) \<noteq> NaN" "best \<noteq> NaN"
  shows "d_le (best_bound_loop pool q best) best \<and>
         (\<forall>h\<in>set q. d_le (best_bound_loop pool q best) (lower_bound_' (pool ! h))) \<and>
         (best_bound_loop pool q best = best \<or>
          (\<exists>h\<in>set q. lower_bound_' (pool ! h) = best_bound_loop pool q best))"
  using assms
proof (induction q arbitrary: best)
  case Nil
  then show ?case by (simp add: d_le_refl)
next
  case (Cons n q)
  let ?b = "d_min best (lower_bound_' (pool ! n))"
  have b: "?b \<noteq> NaN" "d_le ?b best" "d_le ?b (lower_bound_' (pool ! n))"
       "?b = best \<or> ?b = lower_bound_' (pool ! n)"
    using Cons.prems by (auto simp: d_min_def d_le_refl d_lt_d_le not_d_lt_d_le)
  from Cons.prems have "\<forall>n\<in>set q. lower_bound_' (pool ! n) \<noteq> NaN" by simp
  from Cons.IH[OF this b(1)] b show ?case
    by (auto intro: d_le_trans)
qed

lemma DepthFirst_best_bound_min:
  assumes "\<forall>n\<in>set q. lower_bound_' (pool ! n) \<noteq> NaN"
  shows "is_min_bound pool q (DepthFirst_best_bound pool q)"
proof (cases "q = []")
  case True
  then show ?thesis by (simp add: is_min_bound_def DepthFirst_best_bound_def)
next
  case False
  let ?r = "best_bound_loop pool q PosInf"
  from best_bound_loop_min[OF assms, of PosInf]
  have r: "\<forall>h\<in>set q. d_le ?r (lower_bound_' (pool ! h))"
       "?r = PosInf \<or> (\<exists>h\<in>set q. lower_bound_' (pool ! h) = ?r)"
    by auto
  have "\<exists>h\<in>set q. lower_bound_' (pool ! h) = ?r"
  proof (cases "?r = PosInf")
    case True
    from False obtain h where "h \<in> set q" by (cases q) auto
    with r(1) True have "lower_bound_' (pool ! h) = PosInf" by (auto dest: PosInf_d_le)
    with \<open>h \<in> set q\<close> True show ?thesis by auto
  next
    case False
    with r(2) show ?thesis by blast
  qed
  with r(1) False show ?thesis
    by (auto simp: is_min_bound_def DepthFirst_best_bound_def list_all_iff list_ex_iff)
qed

text \<open>
  C5, as the claim states it, fails: a selector took the handle of a pending node with
  lower bound 50, and the node has since been marked Integer. No handle is explorable, so
  the claim requires +infinity; best_bound() of BestFirstSelector and of
  DepthFirstSelector is 50.
\<close>

theorem best_bound_stale_counterexample:
  "BestFirst_add_node stale_pool_before [] (Some 0) = [0] \<and>
   DepthFirst_add_node stale_pool_before [] (Some 0) = [0] \<and>
   explorable stale_pool_after [0] = [] \<and>
   BestFirst_best_bound stale_pool_after [0] = Fin 50 \<and>
   DepthFirst_best_bound stale_pool_after [0] = Fin 50 \<and>
   \<not> is_min_bound stale_pool_after (explorable stale_pool_after [0])
        (BestFirst_best_bound stale_pool_after [0]) \<and>
   \<not> is_min_bound stale_pool_after (explorable stale_pool_after [0])
        (DepthFirst_best_bound stale_pool_after [0])"
  by (simp add: stale_pool_before_def stale_pool_after_def selector_eval node_eval)

text \<open>
  C5, amended: best_bound() is the minimum of the lower bounds of all the handles that
  the selector holds, explorable or not, and +infinity when it holds none (for
  BestFirstSelector, and for HybridSelector, which asks its best-first store, when the
  queue is in the order of the bounds; for DepthFirstSelector and BestEstimateSelector
  always; no bound being a NaN). For BestFirstSelector and DepthFirstSelector it is the
  minimum over the explorable handles once prune() has removed the others.
\<close>

theorem best_bound_over_held:
  assumes "\<forall>n\<in>set queue. lower_bound_' (pool ! n) \<noteq> NaN"
  shows "(pq_ordered (CompareByBound pool) queue \<longrightarrow>
            is_min_bound pool queue (BestFirst_best_bound pool queue) \<and>
            is_min_bound pool queue (Hybrid_best_bound pool queue)) \<and>
         is_min_bound pool queue (DepthFirst_best_bound pool queue) \<and>
         is_min_bound pool queue (BestEstimate_best_bound pool queue) \<and>
         is_min_bound pool (explorable pool queue)
           (BestFirst_best_bound pool (fst (BestFirst_prune pool queue))) \<and>
         is_min_bound pool (explorable pool queue)
           (DepthFirst_best_bound pool (fst (DepthFirst_prune pool queue)))"
proof -
  let ?B = "push_all (CompareByBound pool) [] (explorable pool queue)"
  let ?D = "push_all (CompareByDepth pool) [] (explorable pool queue)"
  have sB: "set ?B = set (explorable pool queue)" and sD: "set ?D = set (explorable pool queue)"
    by (simp_all add: set_push_all)
  have nB: "\<forall>n\<in>set ?B. lower_bound_' (pool ! n) \<noteq> NaN"
    and nD: "\<forall>n\<in>set ?D. lower_bound_' (pool ! n) \<noteq> NaN"
    using assms by (auto simp: set_push_all explorable_def)
  have "pq_ordered (CompareByBound pool) ?B"
    using push_all_ordered[OF strict_order_CompareByBound pq_ordered_Nil] by blast
  then have "is_min_bound pool ?B (BestFirst_best_bound pool ?B)"
    using nB by (rule BestFirst_best_bound_min)
  then have 3: "is_min_bound pool (explorable pool queue)
           (BestFirst_best_bound pool (fst (BestFirst_prune pool queue)))"
    by (simp add: BestFirst_prune_eq is_min_bound_cong[OF sB])
  have "is_min_bound pool ?D (DepthFirst_best_bound pool ?D)"
    using nD by (rule DepthFirst_best_bound_min)
  then have 4: "is_min_bound pool (explorable pool queue)
           (DepthFirst_best_bound pool (fst (DepthFirst_prune pool queue)))"
    by (simp add: DepthFirst_prune_eq is_min_bound_cong[OF sD])
  have 5: "BestEstimate_best_bound pool queue = DepthFirst_best_bound pool queue"
    by (simp add: BestEstimate_best_bound_def DepthFirst_best_bound_def)
  from 3 4 BestFirst_best_bound_min[OF _ assms] DepthFirst_best_bound_min[OF assms]
  show ?thesis unfolding 5 Hybrid_best_bound_def by blast
qed

theorem best_bound_over_held_witness:
  "BestFirst_add_nodes E4_pool [] [Some 0, Some 1, Some 2] = [1, 2, 0] \<and>
   BestFirst_best_bound E4_pool_stale [1, 2, 0] = Fin 50 \<and>
   DepthFirst_best_bound E4_pool_stale [1, 2, 0] = Fin 50 \<and>
   is_min_bound E4_pool_stale [1, 2, 0] (Fin 50) \<and>
   explorable E4_pool_stale [1, 2, 0] = [2, 0] \<and>
   BestFirst_best_bound E4_pool_stale (fst (BestFirst_prune E4_pool_stale [1, 2, 0])) = Fin 60 \<and>
   DepthFirst_best_bound E4_pool_stale (fst (DepthFirst_prune E4_pool_stale [1, 2, 0])) = Fin 60 \<and>
   is_min_bound E4_pool_stale (explorable E4_pool_stale [1, 2, 0]) (Fin 60)"
proof -
  have h: "\<forall>n\<in>set [1, 2, 0]. lower_bound_' (E4_pool_stale ! n) \<noteq> NaN"
    by (simp add: E4_pool_stale_def E4_pool_def node_eval)
  have o: "pq_ordered (CompareByBound E4_pool_stale) [1, 2, 0]"
    by (simp add: E4_pool_stale_def E4_pool_def node_eval selector_eval)
  have e: "BestFirst_add_nodes E4_pool [] [Some 0, Some 1, Some 2] = [1, 2, 0] \<and>
      BestFirst_best_bound E4_pool_stale [1, 2, 0] = Fin 50 \<and>
      DepthFirst_best_bound E4_pool_stale [1, 2, 0] = Fin 50 \<and>
      explorable E4_pool_stale [1, 2, 0] = [2, 0] \<and>
      BestFirst_best_bound E4_pool_stale (fst (BestFirst_prune E4_pool_stale [1, 2, 0])) = Fin 60 \<and>
      DepthFirst_best_bound E4_pool_stale (fst (DepthFirst_prune E4_pool_stale [1, 2, 0])) = Fin 60"
    by (simp add: E4_pool_stale_def E4_pool_def node_eval selector_eval)
  from best_bound_over_held[OF h] o e show ?thesis by simp
qed

section \<open>The invariants of the tree\<close>

lemma same_links_refl: "same_links n n"
  by (simp add: same_links_def has_children_def)

lemma pool_links_refl: "pool_links pool pool"
  by (simp add: pool_links_def same_links_def has_children_def)

lemma pool_links_trans: "pool_links a b \<Longrightarrow> pool_links b c \<Longrightarrow> pool_links a c"
  by (auto simp: pool_links_def same_links_def has_children_def)

lemma pool_links_update:
  "same_links (pool ! p) n' \<Longrightarrow> pool_links pool (pool[p := n'])"
  by (cases "p < length pool") (auto simp: pool_links_def nth_list_update same_links_def has_children_def)

lemma pool_wf_links:
  assumes "pool_wf pool" "pool_links pool pool'"
  shows "pool_wf pool'"
proof -
  from assms(2) have len: "length pool' = length pool"
    and sl: "\<And>a. a < length pool \<Longrightarrow> same_links (pool ! a) (pool' ! a)"
    by (auto simp: pool_links_def)
  have "\<exists>q<a. parent_id_' (pool' ! a) = int q \<and> has_children (pool' ! q) \<and>
               inherited_decisions_' (pool' ! a) =
                 inherited_decisions_' (pool' ! q) @ local_decisions_' (pool' ! q)"
    if "a < length pool" "0 < a" for a
  proof -
    from assms(1) that obtain q where q: "q < a" "parent_id_' (pool ! a) = int q"
      "has_children (pool ! q)"
      "inherited_decisions_' (pool ! a) = inherited_decisions_' (pool ! q) @ local_decisions_' (pool ! q)"
      unfolding pool_wf_def by blast
    with that sl[of a] sl[of q] show ?thesis
      by (intro exI[of _ q]) (auto simp: same_links_def has_children_def)
  qed
  moreover have "id_' (pool' ! a) = int a" if "a < length pool" for a
    using assms(1) that sl[of a] by (auto simp: pool_wf_def same_links_def has_children_def)
  moreover have "parent_id_' (pool' ! 0) = INVALID_ID" "inherited_decisions_' (pool' ! 0) = []"
    using assms(1) sl[of 0] by (auto simp: pool_wf_def same_links_def has_children_def)
  ultimately show ?thesis using assms(1) len by (simp add: pool_wf_def)
qed

lemma prune_by_bound_loop_links:
  "pool_links pool (fst (prune_by_bound_loop gub entries (pool, st, pruned)))"
proof (induction entries arbitrary: pool st pruned)
  case Nil
  then show ?case by (simp add: pool_links_refl)
next
  case (Cons e entries)
  obtain i q where e: "e = (i, q)" by (cases e)
  have "pool_links pool (pool[q := fst (try_prune_by_bound (pool ! q) gub)])"
    by (rule pool_links_update) (simp add: same_links_def has_children_def try_prune_by_bound_def)
  then show ?case
    using Cons.IH pool_links_trans by (auto simp: e)
qed

lemma registry_Suc: "registry (Suc n) = registry n @ [(int n, n)]"
  by (simp add: registry_def)

lemma fst_registry: "fst ` set (registry n) = int ` {0..<n}"
  by (auto simp: registry_def image_iff)

lemma update_fresh: "k \<notin> fst ` set al \<Longrightarrow> AList.update k v al = al @ [(k, v)]"
  by (induction al) auto

lemma update_registry: "AList.update (int n) n (registry n) = registry (Suc n)"
proof -
  have "int n \<notin> fst ` set (registry n)" by (auto simp: fst_registry)
  then show ?thesis by (simp add: update_fresh registry_Suc)
qed

lemma map_of_registry:
  "map_of (registry n) i = (if 0 \<le> i \<and> i < int n then Some (nat i) else None)"
proof (induction n)
  case 0
  then show ?case by (simp add: registry_def)
next
  case (Suc n)
  then show ?case by (auto simp: registry_Suc map_add_def split: option.splits)
qed

lemma create_child_pool:
  assumes "p < length (node_pool_' t)"
  shows "length (node_pool_' (fst (create_child t p d))) = Suc (length (node_pool_' t))"
    and "\<And>a. a < length (node_pool_' t) \<Longrightarrow>
           same_links (node_pool_' t ! a) (node_pool_' (fst (create_child t p d)) ! a) \<and>
           status_' (node_pool_' (fst (create_child t p d)) ! a) = status_' (node_pool_' t ! a)"
    and "id_' (node_pool_' (fst (create_child t p d)) ! length (node_pool_' t)) = next_id_' t"
    and "parent_id_' (node_pool_' (fst (create_child t p d)) ! length (node_pool_' t)) =
           id_' (node_pool_' t ! p)"
    and "inherited_decisions_' (node_pool_' (fst (create_child t p d)) ! length (node_pool_' t)) =
           inherited_decisions_' (node_pool_' t ! p) @ local_decisions_' (node_pool_' t ! p)"
    and "status_' (node_pool_' (fst (create_child t p d)) ! length (node_pool_' t)) = PENDING"
    and "has_children (node_pool_' (fst (create_child t p d)) ! p)"
    and "nodes_' (fst (create_child t p d)) =
           AList.update (next_id_' t) (length (node_pool_' t)) (nodes_' t)"
    and "next_id_' (fst (create_child t p d)) = next_id_' t + 1"
    and "root_' (fst (create_child t p d)) = root_' t"
    and "nodes_created (stats_' (fst (create_child t p d))) = nodes_created (stats_' t) + 1"
    and "nodes_open (stats_' (fst (create_child t p d))) = nodes_open (stats_' t) + 1"
  using assms
  by (auto simp: create_child_def allocate_def Let_def nth_append nth_list_update same_links_def has_children_def
      node_eval)

lemma create_child_wf:
  assumes "tree_wf t" "p < length (node_pool_' t)"
  shows "tree_wf (fst (create_child t p d))"
proof -
  let ?pool = "node_pool_' t" and ?pool' = "node_pool_' (fst (create_child t p d))"
  let ?n = "length ?pool"
  note cc = create_child_pool[OF assms(2), where d = d]
  from assms(1) have wf: "pool_wf ?pool" and reg: "nodes_' t = registry ?n"
    and nid: "next_id_' t = int ?n" and root: "root_' t = Some 0"
    by (auto simp: tree_wf_def)
  have old: "same_links (?pool ! a) (?pool' ! a)" if "a < ?n" for a
    using cc(2)[OF that] by simp
  have ids: "id_' (?pool' ! a) = int a" if "a < Suc ?n" for a
  proof (cases "a < ?n")
    case True
    with wf old[OF True] show ?thesis by (auto simp: pool_wf_def same_links_def has_children_def)
  next
    case False
    with that have "a = ?n" by simp
    with cc(3) nid show ?thesis by simp
  qed
  have par: "\<exists>q<a. parent_id_' (?pool' ! a) = int q \<and> has_children (?pool' ! q) \<and>
               inherited_decisions_' (?pool' ! a) =
                 inherited_decisions_' (?pool' ! q) @ local_decisions_' (?pool' ! q)"
    if "a < Suc ?n" "0 < a" for a
  proof (cases "a < ?n")
    case True
    from wf True that obtain q where q: "q < a" "parent_id_' (?pool ! a) = int q"
      "has_children (?pool ! q)"
      "inherited_decisions_' (?pool ! a) = inherited_decisions_' (?pool ! q) @ local_decisions_' (?pool ! q)"
      unfolding pool_wf_def by blast
    with True old[of a] old[of q] show ?thesis
      by (intro exI[of _ q]) (auto simp: same_links_def has_children_def)
  next
    case False
    with that have a: "a = ?n" by simp
    have "id_' (?pool ! p) = int p" using wf assms(2) by (auto simp: pool_wf_def)
    with cc(4) cc(5) cc(7) old[OF assms(2)] assms(2) a show ?thesis
      by (intro exI[of _ p]) (auto simp: same_links_def has_children_def)
  qed
  have root0: "parent_id_' (?pool' ! 0) = INVALID_ID" "inherited_decisions_' (?pool' ! 0) = []"
    using wf old[of 0] by (auto simp: pool_wf_def same_links_def has_children_def)
  have "pool_wf ?pool'"
    unfolding pool_wf_def using cc(1) ids par root0 by auto
  moreover have "nodes_' (fst (create_child t p d)) = registry (length ?pool')"
    using cc(1) cc(8) reg nid by (simp add: update_registry)
  ultimately show ?thesis
    using cc(1) cc(9) cc(10) nid root by (simp add: tree_wf_def)
qed

lemma create_children_loop_wf:
  assumes "tree_wf t" "p < length (node_pool_' t)"
  shows "tree_wf (fst (create_children_loop t p ds cs)) \<and>
         p < length (node_pool_' (fst (create_children_loop t p ds cs)))"
  using assms
proof (induction ds arbitrary: t cs)
  case Nil
  then show ?case by simp
next
  case (Cons d ds)
  have "tree_wf (fst (create_child t p d))"
    using Cons.prems by (rule create_child_wf)
  moreover have "p < length (node_pool_' (fst (create_child t p d)))"
    using create_child_pool(1)[OF Cons.prems(2), where d = d] Cons.prems(2) by simp
  ultimately show ?case
    using Cons.IH[of "fst (create_child t p d)" "cs @ [snd (create_child t p d)]"]
    by (simp add: split_beta)
qed

lemma tree_wf_links:
  assumes "tree_wf t" "pool_links (node_pool_' t) (node_pool_' t')"
    "nodes_' t' = nodes_' t" "next_id_' t' = next_id_' t" "root_' t' = root_' t"
  shows "tree_wf t'"
  using assms pool_wf_links[of "node_pool_' t" "node_pool_' t'"]
  by (auto simp: tree_wf_def pool_links_def)

lemma create_children_wf:
  assumes "tree_wf t" "p < length (node_pool_' t)"
  shows "tree_wf (fst (create_children t p ds))"
proof -
  let ?t1 = "fst (create_children_loop t p ds [])"
  have wf1: "tree_wf ?t1" using create_children_loop_wf[OF assms] by blast
  have "pool_links (node_pool_' ?t1) (node_pool_' (fst (create_children t p ds)))"
    by (auto simp: create_children_def split_beta Let_def set_status_def same_links_def has_children_def
        intro!: pool_links_update)
  with wf1 show ?thesis
    by (rule tree_wf_links) (simp_all add: create_children_def split_beta Let_def)
qed

lemma BPTree_new_wf: "tree_wf (BPTree_new m)"
  by (simp add: tree_wf_def pool_wf_def registry_def tree_eval node_eval)

lemma on_node_wf:
  assumes "tree_wf t" "\<And>n. same_links n (f n)"
  shows "tree_wf (on_node t p f)"
  using assms(1)
  by (rule tree_wf_links) (auto simp: on_node_def assms(2) intro!: pool_links_update)

lemma add_local_decision_wf:
  assumes "pool_wf pool" "p < length pool" "\<not> has_children (pool ! p)"
  shows "pool_wf (pool[p := add_local_decision (pool ! p) d])"
proof -
  let ?pool' = "pool[p := add_local_decision (pool ! p) d]"
  have other: "?pool' ! a = pool ! a" if "a \<noteq> p" for a
    using that by simp
  have self: "id_' (?pool' ! p) = id_' (pool ! p)" "parent_id_' (?pool' ! p) = parent_id_' (pool ! p)"
    "inherited_decisions_' (?pool' ! p) = inherited_decisions_' (pool ! p)"
    using assms(2) by (simp_all add: add_local_decision_def)
  have "\<exists>q<a. parent_id_' (?pool' ! a) = int q \<and> has_children (?pool' ! q) \<and>
               inherited_decisions_' (?pool' ! a) =
                 inherited_decisions_' (?pool' ! q) @ local_decisions_' (?pool' ! q)"
    if "a < length pool" "0 < a" for a
  proof -
    from assms(1) that obtain q where q: "q < a" "parent_id_' (pool ! a) = int q"
      "has_children (pool ! q)"
      "inherited_decisions_' (pool ! a) = inherited_decisions_' (pool ! q) @ local_decisions_' (pool ! q)"
      unfolding pool_wf_def by blast
    from q(3) assms(3) have "q \<noteq> p" by auto
    with q self other[of q] other[of a] show ?thesis
      by (intro exI[of _ q]) (cases "a = p"; simp)
  qed
  moreover have "id_' (?pool' ! a) = int a" if "a < length pool" for a
    using assms(1) that self other[of a] by (cases "a = p") (auto simp: pool_wf_def)
  moreover have "parent_id_' (?pool' ! 0) = INVALID_ID" "inherited_decisions_' (?pool' ! 0) = []"
    using assms(1) self other[of 0] by (cases "p = 0"; auto simp: pool_wf_def)+
  ultimately show ?thesis using assms(1) by (simp add: pool_wf_def)
qed

lemma call_wf:
  assumes "tree_wf t" "keeps_decisions c t"
  shows "tree_wf (call c t)"
proof (cases c)
  case (CreateChild p d)
  with assms show ?thesis
    by (simp add: pointer_ok_def create_child_wf)
next
  case (CreateChildren p ds)
  with assms show ?thesis
    by (simp add: pointer_ok_def create_children_wf)
next
  case (MarkProcessed p s)
  have "pool_links (node_pool_' t) (node_pool_' (mark_processed t p s))"
    by (auto simp: mark_processed_def Let_def set_status_def same_links_def has_children_def
        intro!: pool_links_update)
  with assms(1) show ?thesis unfolding MarkProcessed call.simps
    by (rule tree_wf_links) (simp_all add: mark_processed_def Let_def)
next
  case (UpdateBounds p)
  from assms(1) show ?thesis unfolding UpdateBounds call.simps
    by (rule tree_wf_links) (simp_all add: update_bounds_def Let_def pool_links_refl)
next
  case PruneByBound
  have "pool_links (node_pool_' t) (node_pool_' (fst (prune_by_bound t)))"
    using prune_by_bound_loop_links[of "node_pool_' t" "global_upper_bound_' t" "nodes_' t" "stats_' t" 0]
    by (simp add: prune_by_bound_def split_beta)
  with assms(1) show ?thesis unfolding PruneByBound call.simps
    by (rule tree_wf_links) (simp_all add: prune_by_bound_def split_beta)
next
  case (SetIncumbent p)
  from assms(1) show ?thesis unfolding SetIncumbent call.simps
    by (rule tree_wf_links)
       (simp_all add: set_incumbent_def Let_def pool_links_refl split: option.splits)
next
  case (SetGlobalLowerBound lb)
  from assms(1) show ?thesis unfolding SetGlobalLowerBound call.simps
    by (rule tree_wf_links) (simp_all add: set_global_lower_bound_def pool_links_refl)
next
  case (SetGlobalUpperBound ub)
  from assms(1) show ?thesis unfolding SetGlobalUpperBound call.simps
    by (rule tree_wf_links) (simp_all add: set_global_upper_bound_def pool_links_refl)
next
  case (SetLowerBound p lb)
  from assms(1) show ?thesis unfolding SetLowerBound call.simps
    by (rule on_node_wf) (simp add: same_links_def has_children_def set_lower_bound_def)
next
  case (SetUpperBound p ub)
  from assms(1) show ?thesis unfolding SetUpperBound call.simps
    by (rule on_node_wf) (simp add: same_links_def has_children_def set_upper_bound_def)
next
  case (SetLpValue p v)
  from assms(1) show ?thesis unfolding SetLpValue call.simps
    by (rule on_node_wf) (simp add: same_links_def has_children_def set_lp_value_def)
next
  case (SetIsInteger p b)
  from assms(1) show ?thesis unfolding SetIsInteger call.simps
    by (rule on_node_wf) (simp add: same_links_def has_children_def set_is_integer_def)
next
  case (SetStatus p s)
  from assms(1) show ?thesis unfolding SetStatus call.simps
    by (rule on_node_wf) (simp add: same_links_def has_children_def set_status_def)
next
  case (SetSolution p sol)
  from assms(1) show ?thesis unfolding SetSolution call.simps
    by (rule on_node_wf) (simp add: same_links_def has_children_def set_solution_def)
next
  case (SetSolutionColumns p cols)
  from assms(1) show ?thesis unfolding SetSolutionColumns call.simps
    by (rule on_node_wf) (simp add: same_links_def has_children_def set_solution_columns_def)
next
  case (AddLocalDecision p d)
  with assms(2) have p: "p < length (node_pool_' t)" "\<not> has_children (node_pool_' t ! p)"
    by simp_all
  from assms(1) have "pool_wf (node_pool_' t)" by (simp add: tree_wf_def)
  then have "pool_wf ((node_pool_' t)[p := add_local_decision (node_pool_' t ! p) d])"
    using p by (rule add_local_decision_wf)
  with assms(1) show ?thesis unfolding AddLocalDecision call.simps
    by (simp add: tree_wf_def on_node_def)
qed

lemma run_calls_wf:
  "tree_wf t \<Longrightarrow> run_calls keeps_decisions cs t = Some t' \<Longrightarrow> tree_wf t'"
proof (induction cs arbitrary: t)
  case Nil
  then show ?case by simp
next
  case (Cons c cs)
  from Cons.prems(2) have ok: "keeps_decisions c t"
    and run: "run_calls keeps_decisions cs (call c t) = Some t'"
    by (auto split: if_splits)
  from Cons.prems(1) ok have "tree_wf (call c t)" by (rule call_wf)
  then show ?case using run by (rule Cons.IH)
qed

lemma tree_wf_node: "tree_wf t \<Longrightarrow> a < length (node_pool_' t) \<Longrightarrow> node t (int a) = Some a"
  by (simp add: tree_wf_def node_def map_of_registry)

lemma tree_wf_inherits_from_parent:
  assumes "tree_wf t"
  shows "inherits_from_parent t"
proof -
  let ?pool = "node_pool_' t"
  have "Some a = root_' t \<or>
        (case node t (parent_id_' (?pool ! a)) of
           None \<Rightarrow> False
         | Some q \<Rightarrow> inherited_decisions_' (?pool ! a) =
                      inherited_decisions_' (?pool ! q) @ local_decisions_' (?pool ! q))"
    if a: "a < length ?pool" for a
  proof (cases "a = 0")
    case True
    with assms show ?thesis by (simp add: tree_wf_def)
  next
    case False
    with assms a obtain q where q: "q < a" "parent_id_' (?pool ! a) = int q"
      "inherited_decisions_' (?pool ! a) = inherited_decisions_' (?pool ! q) @ local_decisions_' (?pool ! q)"
      unfolding tree_wf_def pool_wf_def by blast
    from q(1) a have "node t (int q) = Some q" by (intro tree_wf_node[OF assms]) simp
    with q show ?thesis by simp
  qed
  moreover from assms have "nodes_' t = registry (length ?pool)" by (simp add: tree_wf_def)
  ultimately show ?thesis
    by (auto simp: inherits_from_parent_def list_all_iff registry_def)
qed

lemma local_decisions_along_snoc:
  "local_decisions_along t (ids @ [i]) =
     local_decisions_along t ids @
     (case node t i of None \<Rightarrow> [] | Some q \<Rightarrow> local_decisions_' (node_pool_' t ! q))"
  by (simp add: local_decisions_along_def)

lemma get_path_loop_wf:
  assumes "tree_wf t"
  shows "a < length (node_pool_' t) \<Longrightarrow>
         \<exists>ids. get_path_loop t (int a) acc = Some (acc @ int a # ids) \<and>
               last (int a # ids) = 0 \<and>
               inherited_decisions_' (node_pool_' t ! a) = local_decisions_along t (rev ids)"
proof (induction a arbitrary: acc rule: less_induct)
  case (less a)
  let ?pool = "node_pool_' t"
  from assms less.prems have reg: "map_of (nodes_' t) (int a) = Some a"
    using tree_wf_node[of t a] by (simp add: node_def)
  have step: "get_path_loop t (int a) acc =
                get_path_loop t (parent_id_' (?pool ! a)) (acc @ [int a])"
    by (subst get_path_loop.simps) (simp add: reg INVALID_ID_def)
  show ?case
  proof (cases "a = 0")
    case True
    with assms have "parent_id_' (?pool ! a) = INVALID_ID" "inherited_decisions_' (?pool ! a) = []"
      by (auto simp: tree_wf_def pool_wf_def)
    moreover have "get_path_loop t INVALID_ID (acc @ [int a]) = Some (acc @ [int a])"
      by (subst get_path_loop.simps) simp
    ultimately have "get_path_loop t (int a) acc = Some (acc @ int a # [])"
      "inherited_decisions_' (?pool ! a) = local_decisions_along t (rev [])"
      by (simp_all add: step local_decisions_along_def)
    moreover have "last (int a # []) = 0" using True by simp
    ultimately show ?thesis by blast
  next
    case False
    with assms less.prems obtain q where q: "q < a" "parent_id_' (?pool ! a) = int q"
      "inherited_decisions_' (?pool ! a) = inherited_decisions_' (?pool ! q) @ local_decisions_' (?pool ! q)"
      unfolding tree_wf_def pool_wf_def by blast
    from q(1) less.prems have ql: "q < length ?pool" by simp
    from less.IH[OF q(1) ql, of "acc @ [int a]"] obtain ids where
      ids: "get_path_loop t (int q) (acc @ [int a]) = Some ((acc @ [int a]) @ int q # ids)"
        "last (int q # ids) = 0"
        "inherited_decisions_' (?pool ! q) = local_decisions_along t (rev ids)"
      by blast
    have "node t (int q) = Some q" using assms ql by (rule tree_wf_node)
    with ids q show ?thesis
      by (intro exI[of _ "int q # ids"]) (simp add: step local_decisions_along_snoc)
  qed
qed

lemma tree_wf_inherits_from_ancestors:
  assumes "tree_wf t"
  shows "inherits_from_ancestors t"
proof -
  let ?pool = "node_pool_' t"
  have "case get_path_to_root t (int a) of
          None \<Rightarrow> False
        | Some path \<Rightarrow> path \<noteq> [] \<and> node t (hd path) = root_' t \<and> last path = int a \<and>
            inherited_decisions_' (?pool ! a) = local_decisions_along t (butlast path)"
    if "a < length ?pool" for a
  proof -
    from get_path_loop_wf[OF assms that, of "[]"] obtain ids where
      ids: "get_path_loop t (int a) [] = Some (int a # ids)"
      "last (int a # ids) = 0"
      "inherited_decisions_' (?pool ! a) = local_decisions_along t (rev ids)"
      by auto
    from ids(2) have "hd (rev ids @ [int a]) = 0"
      by (cases ids rule: rev_cases) (simp_all split: if_splits)
    moreover from assms have "node t 0 = root_' t"
      using tree_wf_node[of t 0] by (simp add: tree_wf_def pool_wf_def)
    ultimately show ?thesis using ids by (simp add: get_path_to_root_def)
  qed
  moreover from assms have "nodes_' t = registry (length ?pool)" by (simp add: tree_wf_def)
  ultimately show ?thesis
    by (auto simp: inherits_from_ancestors_def list_all_iff registry_def)
qed

text \<open>
  C1, as the claim states it, fails: the inherited decisions of a child are a copy made by
  create_child. After create_child on the root and then add_local_decision on the root,
  which is still pending, the child inherits nothing while its parent has one local
  decision.
\<close>

theorem inherited_decisions_counterexample:
  "run_calls pointer_ok late_decision_calls (BPTree_new True) = Some late_decision_tree \<and>
   node late_decision_tree 1 = Some 1 \<and>
   parent_id_' (node_pool_' late_decision_tree ! 1) = 0 \<and>
   node late_decision_tree 0 = Some 0 \<and>
   inherited_decisions_' (node_pool_' late_decision_tree ! 1) = [] \<and>
   inherited_decisions_' (node_pool_' late_decision_tree ! 0) @
     local_decisions_' (node_pool_' late_decision_tree ! 0) = [ryan_foster 1 2 True] \<and>
   \<not> inherits_from_parent late_decision_tree"
  by (simp add: late_decision_calls_def late_decision_tree_def run_all_def inherits_from_parent_def
      call_eval tree_eval node_eval)

text \<open>
  C1, amended: in every state that a tree reaches from its construction by calls of
  create_child, create_children, mark_processed, update_bounds, prune_by_bound,
  set_incumbent and the setters, and by calls of add_local_decision on nodes that have no
  child, every registered node other than the root has inherited decisions equal to the
  inherited decisions of its parent followed by the local decisions of its parent; they
  are the local decisions of its ancestors on the path that get_path_to_root returns,
  from the root to the parent.
\<close>

theorem inherited_decisions_invariant:
  "run_calls keeps_decisions cs (BPTree_new minimize) = Some t \<Longrightarrow>
   inherits_from_parent t \<and> inherits_from_ancestors t"
proof -
  assume "run_calls keeps_decisions cs (BPTree_new minimize) = Some t"
  with BPTree_new_wf have "tree_wf t" by (rule run_calls_wf)
  then show ?thesis
    by (simp add: tree_wf_inherits_from_parent tree_wf_inherits_from_ancestors)
qed

theorem inherited_decisions_invariant_witness:
  "run_calls keeps_decisions E2_calls (BPTree_new True) = Some E2_tree \<and>
   inherited_decisions_' (node_pool_' E2_tree ! 2) = [variable_branch 0 (Fin 1) True] \<and>
   local_decisions_' (node_pool_' E2_tree ! 2) = [ryan_foster 1 2 True] \<and>
   get_path_to_root E2_tree 2 = Some [0, 1, 2] \<and>
   inherits_from_parent E2_tree \<and> inherits_from_ancestors E2_tree"
proof -
  have r: "run_calls keeps_decisions E2_calls (BPTree_new True) = Some E2_tree"
    by (simp add: E2_calls_def E2_tree_def run_all_def call_eval tree_eval node_eval)
  have e: "inherited_decisions_' (node_pool_' E2_tree ! 2) = [variable_branch 0 (Fin 1) True] \<and>
      local_decisions_' (node_pool_' E2_tree ! 2) = [ryan_foster 1 2 True]"
    by (simp add: E2_calls_def E2_tree_def run_all_def call_eval tree_eval node_eval)
  have p: "get_path_to_root E2_tree 2 = Some [0, 1, 2]"
    by (simp add: E2_calls_def E2_tree_def run_all_def get_path_to_root_def get_path_loop.simps
        call_eval tree_eval node_eval)
  from inherited_decisions_invariant[OF r] r e p show ?thesis by simp
qed

section \<open>The balance of the statistics\<close>

lemma count_where_update:
  "p < length pool \<Longrightarrow>
   count_where P (pool[p := n']) =
     count_where P pool - (if P (status_' (pool ! p)) then 1 else 0)
       + (if P (status_' n') then 1 else 0)"
proof (induction pool arbitrary: p)
  case Nil
  then show ?case by simp
next
  case (Cons x xs)
  show ?case
  proof (cases p)
    case 0
    then show ?thesis by (simp add: count_where_def)
  next
    case (Suc k)
    with Cons.prems have "k < length xs" by simp
    note ih = Cons.IH[OF this]
    have "count_where P ((x # xs)[p := n']) =
            (if P (status_' x) then 1 else 0) + count_where P (xs[k := n'])"
      "count_where P (x # xs) = (if P (status_' x) then 1 else 0) + count_where P xs"
      "(x # xs) ! p = xs ! k"
      using Suc by (simp_all add: count_where_def)
    with ih show ?thesis by (simp only:)
  qed
qed

lemma count_where_statuses:
  "count_where P pool = int (length (filter P (map status_' pool)))"
  by (simp add: count_where_def filter_map comp_def)

lemma count_where_new_pending:
  assumes "length pool' = Suc (length pool)"
    "\<And>a. a < length pool \<Longrightarrow> status_' (pool' ! a) = status_' (pool ! a)"
    "status_' (pool' ! length pool) = PENDING" "\<not> P PENDING"
  shows "count_where P pool' = count_where P pool"
proof -
  have "map status_' pool' = map status_' pool @ [PENDING]"
    using assms(1-3) by (intro nth_equalityI) (auto simp: nth_append less_Suc_eq)
  then show ?thesis using assms(4) by (simp add: count_where_statuses)
qed

lemma balanced_stats_ok:
  "balanced t \<longleftrightarrow>
     nodes_' t = registry (length (node_pool_' t)) \<and>
     next_id_' t = int (length (node_pool_' t)) \<and> stats_ok (node_pool_' t) (stats_' t)"
  by (simp add: balanced_def)

lemma stats_ok_update:
  assumes "stats_ok pool st" "p < length pool"
    "nodes_created st' = nodes_created st"
    "nodes_open st' = nodes_open st
       + (if status_' (pool ! p) \<noteq> PENDING \<and> status_' (pool ! p) \<noteq> PROCESSING then 1 else 0)
       - (if status_' n' \<noteq> PENDING \<and> status_' n' \<noteq> PROCESSING then 1 else 0)"
    "nodes_branched st' = nodes_branched st
       - (if status_' (pool ! p) = BRANCHED then 1 else 0)
       + (if status_' n' = BRANCHED then 1 else 0)"
    "nodes_pruned_bound st' = nodes_pruned_bound st
       - (if status_' (pool ! p) = PRUNED_BOUND then 1 else 0)
       + (if status_' n' = PRUNED_BOUND then 1 else 0)"
    "nodes_pruned_infeasible st' = nodes_pruned_infeasible st
       - (if status_' (pool ! p) = PRUNED_INFEASIBLE then 1 else 0)
       + (if status_' n' = PRUNED_INFEASIBLE then 1 else 0)"
    "nodes_integer st' = nodes_integer st
       - (if status_' (pool ! p) = INTEGER then 1 else 0)
       + (if status_' n' = INTEGER then 1 else 0)"
  shows "stats_ok (pool[p := n']) st'"
  using assms(1) unfolding stats_ok_def
  by (simp only: count_where_update[OF assms(2)] assms(3-8)) linarith

lemma stats_ok_same_status:
  assumes "stats_ok pool st" "status_' n' = status_' (pool ! p)"
  shows "stats_ok (pool[p := n']) st"
proof (cases "p < length pool")
  case True
  from assms(1) True show ?thesis
    by (rule stats_ok_update) (simp_all add: assms(2))
next
  case False
  then have "pool[p := n'] = pool" by (intro list_update_beyond) simp
  with assms(1) show ?thesis by simp
qed

lemma five_statuses:
  "int (length (filter (\<lambda>x. f x = BRANCHED) xs)) + int (length (filter (\<lambda>x. f x = PRUNED_BOUND) xs)) +
   int (length (filter (\<lambda>x. f x = PRUNED_INFEASIBLE) xs)) + int (length (filter (\<lambda>x. f x = INTEGER) xs)) +
   int (length (filter (\<lambda>x. f x = FATHOMED) xs)) =
   int (length (filter (\<lambda>x. f x \<noteq> PENDING \<and> f x \<noteq> PROCESSING) xs))"
proof (induction xs)
  case Nil
  then show ?case by simp
next
  case (Cons x xs)
  then show ?case by (cases "f x") simp_all
qed

lemma balanced_count_status:
  assumes "balanced t"
  shows "count_status t s = count_where (\<lambda>x. x = s) (node_pool_' t)"
proof -
  let ?pool = "node_pool_' t"
  have "map status_' ?pool = map (\<lambda>a. status_' (?pool ! a)) [0..<length ?pool]"
    by (intro nth_equalityI) simp_all
  then have "count_where (\<lambda>x. x = s) ?pool =
      int (length (filter (\<lambda>a. status_' (?pool ! a) = s) [0..<length ?pool]))"
    by (simp add: count_where_statuses filter_map comp_def)
  moreover have "count_status t s =
      int (length (filter (\<lambda>a. status_' (?pool ! a) = s) [0..<length ?pool]))"
    using assms by (simp add: count_status_def balanced_def registry_def filter_map comp_def)
  ultimately show ?thesis by simp
qed

lemma balanced_stats_balance:
  assumes "balanced t"
  shows "stats_balance t \<and> counters_agree t"
proof -
  have "count_where (\<lambda>s. s = BRANCHED) (node_pool_' t) + count_where (\<lambda>s. s = PRUNED_BOUND) (node_pool_' t) +
        count_where (\<lambda>s. s = PRUNED_INFEASIBLE) (node_pool_' t) + count_where (\<lambda>s. s = INTEGER) (node_pool_' t) +
        count_where (\<lambda>s. s = FATHOMED) (node_pool_' t) =
        count_where (\<lambda>s. s \<noteq> PENDING \<and> s \<noteq> PROCESSING) (node_pool_' t)"
    unfolding count_where_def by (rule five_statuses)
  with assms show ?thesis
    by (simp add: stats_balance_def counters_agree_def balanced_count_status[OF assms] balanced_def
        stats_ok_def)
qed

lemma create_child_stats:
  "nodes_branched (stats_' (fst (create_child t p d))) = nodes_branched (stats_' t)"
  "nodes_pruned_bound (stats_' (fst (create_child t p d))) = nodes_pruned_bound (stats_' t)"
  "nodes_pruned_infeasible (stats_' (fst (create_child t p d))) = nodes_pruned_infeasible (stats_' t)"
  "nodes_integer (stats_' (fst (create_child t p d))) = nodes_integer (stats_' t)"
  by (simp_all add: create_child_def allocate_def Let_def)

lemma create_child_balanced:
  assumes "balanced t" "p < length (node_pool_' t)"
  shows "balanced (fst (create_child t p d))"
proof -
  note cc = create_child_pool[OF assms(2), where d = d]
  have "count_where P (node_pool_' (fst (create_child t p d))) = count_where P (node_pool_' t)"
    if "\<not> P PENDING" for P
    using cc(1) cc(2) cc(6) that by (intro count_where_new_pending) auto
  with assms(1) cc show ?thesis
    by (simp add: balanced_def stats_ok_def update_registry create_child_stats)
qed

lemma create_children_loop_balanced:
  assumes "balanced t" "p < length (node_pool_' t)"
  shows "balanced (fst (create_children_loop t p ds cs)) \<and>
         p < length (node_pool_' (fst (create_children_loop t p ds cs))) \<and>
         status_' (node_pool_' (fst (create_children_loop t p ds cs)) ! p) = status_' (node_pool_' t ! p)"
  using assms
proof (induction ds arbitrary: t cs)
  case Nil
  then show ?case by simp
next
  case (Cons d ds)
  note cc = create_child_pool[OF Cons.prems(2), where d = d]
  have "balanced (fst (create_child t p d))"
    using Cons.prems by (rule create_child_balanced)
  moreover have "p < length (node_pool_' (fst (create_child t p d)))"
    using cc(1) Cons.prems(2) by simp
  moreover have "status_' (node_pool_' (fst (create_child t p d)) ! p) = status_' (node_pool_' t ! p)"
    using cc(2)[OF Cons.prems(2)] by simp
  ultimately show ?case
    using Cons.IH[of "fst (create_child t p d)" "cs @ [snd (create_child t p d)]"]
    by (simp add: split_beta)
qed

lemma create_children_balanced:
  assumes "balanced t" "p < length (node_pool_' t)" "\<not> is_processed (node_pool_' t ! p)"
  shows "balanced (fst (create_children t p ds))"
proof -
  let ?t1 = "fst (create_children_loop t p ds [])"
  let ?st' = "(stats_' ?t1)\<lparr>nodes_branched := nodes_branched (stats_' ?t1) + 1,
                             nodes_open := nodes_open (stats_' ?t1) - 1\<rparr>"
  from create_children_loop_balanced[OF assms(1,2), of ds "[]"]
  have b1: "balanced ?t1" and p1: "p < length (node_pool_' ?t1)"
    and s1: "status_' (node_pool_' ?t1 ! p) = status_' (node_pool_' t ! p)"
    by auto
  from s1 assms(3) have s: "status_' (node_pool_' ?t1 ! p) = PENDING \<or> status_' (node_pool_' ?t1 ! p) = PROCESSING"
    by (simp add: is_processed_def)
  from b1 have "stats_ok (node_pool_' ?t1) (stats_' ?t1)" by (simp add: balanced_stats_ok)
  then have "stats_ok ((node_pool_' ?t1)[p := set_status (node_pool_' ?t1 ! p) BRANCHED]) ?st'"
    using p1 by (rule stats_ok_update) (use s in \<open>auto simp: set_status_def\<close>)
  with b1 show ?thesis
    by (simp add: create_children_def split_beta Let_def balanced_stats_ok)
qed

lemma mark_processed_balanced:
  assumes "balanced t" "p < length (node_pool_' t)" "\<not> is_processed (node_pool_' t ! p)"
    "s \<noteq> PENDING" "s \<noteq> PROCESSING" "s \<noteq> BRANCHED"
  shows "balanced (mark_processed t p s)"
proof -
  from assms(3) have s0: "status_' (node_pool_' t ! p) = PENDING \<or> status_' (node_pool_' t ! p) = PROCESSING"
    by (simp add: is_processed_def)
  from assms(1) have "stats_ok (node_pool_' t) (stats_' t)" by (simp add: balanced_stats_ok)
  then have "stats_ok ((node_pool_' t)[p := set_status (node_pool_' t ! p) s])
               (stats_' (mark_processed t p s))"
    using assms(2)
    by (rule stats_ok_update)
       (use s0 assms(4-6) in \<open>cases s; auto simp: mark_processed_def Let_def set_status_def\<close>)+
  with assms(1) show ?thesis
    by (simp add: balanced_stats_ok) (simp add: mark_processed_def Let_def)
qed

lemma prune_by_bound_loop_balanced:
  assumes "\<forall>e\<in>set entries. snd e < length pool" "stats_ok pool st"
  shows "length (fst (prune_by_bound_loop gub entries (pool, st, pruned))) = length pool \<and>
         stats_ok (fst (prune_by_bound_loop gub entries (pool, st, pruned)))
           (fst (snd (prune_by_bound_loop gub entries (pool, st, pruned))))"
  using assms
proof (induction entries arbitrary: pool st pruned)
  case Nil
  then show ?case by simp
next
  case (Cons e entries)
  obtain i q where e: "e = (i, q)" by (cases e)
  with Cons.prems have q: "q < length pool" by simp
  show ?case
  proof (cases "can_be_explored (pool ! q) \<and> snd (try_prune_by_bound (pool ! q) gub)")
    case True
    let ?pool' = "pool[q := fst (try_prune_by_bound (pool ! q) gub)]"
    let ?st' = "st\<lparr>nodes_pruned_bound := nodes_pruned_bound st + 1, nodes_open := nodes_open st - 1\<rparr>"
    from True have s: "status_' (pool ! q) = PENDING"
      "status_' (fst (try_prune_by_bound (pool ! q) gub)) = PRUNED_BOUND"
      by (auto simp: can_be_explored_def try_prune_by_bound_def split: if_splits)
    from Cons.prems(2) q have "stats_ok ?pool' ?st'"
      by (rule stats_ok_update) (simp_all add: s)
    moreover from Cons.prems(1) have "\<forall>e\<in>set entries. snd e < length ?pool'" by simp
    ultimately show ?thesis
      using Cons.IH[of ?pool' ?st' "pruned + 1"] True by (simp add: e)
  next
    case False
    from Cons.prems have "\<forall>e\<in>set entries. snd e < length pool" by simp
    from Cons.IH[OF this Cons.prems(2), of pruned] False show ?thesis
      by (auto simp: e)
  qed
qed

lemma prune_by_bound_balanced:
  assumes "balanced t"
  shows "balanced (fst (prune_by_bound t))"
proof -
  from assms have "\<forall>e\<in>set (nodes_' t). snd e < length (node_pool_' t)"
    by (auto simp: balanced_def registry_def)
  moreover from assms have "stats_ok (node_pool_' t) (stats_' t)"
    by (simp add: balanced_stats_ok)
  ultimately show ?thesis
    using prune_by_bound_loop_balanced[of "nodes_' t" "node_pool_' t" "stats_' t" "global_upper_bound_' t" 0]
      assms
    by (simp add: prune_by_bound_def split_beta balanced_stats_ok)
qed

lemma on_node_balanced:
  assumes "balanced t" "\<And>n. status_' (f n) = status_' n"
  shows "balanced (on_node t p f)"
proof -
  from assms(1) have "stats_ok (node_pool_' t) (stats_' t)" by (simp add: balanced_stats_ok)
  then have "stats_ok ((node_pool_' t)[p := f (node_pool_' t ! p)]) (stats_' t)"
    by (rule stats_ok_same_status) (rule assms(2))
  with assms(1) show ?thesis by (simp add: on_node_def balanced_stats_ok)
qed

lemma stats_ok_best_upper_bound:
  "stats_ok pool (st\<lparr>best_upper_bound := b\<rparr>) = stats_ok pool st"
  by (simp add: stats_ok_def)

lemma call_balanced:
  assumes "balanced t" "follows_protocol c t"
  shows "balanced (call c t)"
proof (cases c)
  case (CreateChild p d)
  with assms show ?thesis by (simp add: pointer_ok_def create_child_balanced)
next
  case (CreateChildren p ds)
  with assms show ?thesis by (simp add: create_children_balanced)
next
  case (MarkProcessed p s)
  with assms show ?thesis by (simp add: mark_processed_balanced)
next
  case (UpdateBounds p)
  with assms(1) show ?thesis
    by (simp add: update_bounds_def Let_def balanced_stats_ok stats_ok_best_upper_bound)
next
  case PruneByBound
  with assms(1) show ?thesis by (simp add: prune_by_bound_balanced)
next
  case (SetIncumbent p)
  with assms(1) show ?thesis
    by (simp add: set_incumbent_def Let_def balanced_stats_ok stats_ok_best_upper_bound
        split: option.splits)
next
  case (SetGlobalLowerBound lb)
  with assms(1) show ?thesis by (simp add: set_global_lower_bound_def balanced_stats_ok)
next
  case (SetGlobalUpperBound ub)
  with assms(1) show ?thesis by (simp add: set_global_upper_bound_def balanced_stats_ok)
next
  case (SetLowerBound p lb)
  with assms(1) show ?thesis by (simp add: on_node_balanced set_lower_bound_def)
next
  case (SetUpperBound p ub)
  with assms(1) show ?thesis by (simp add: on_node_balanced set_upper_bound_def)
next
  case (SetLpValue p v)
  with assms(1) show ?thesis by (simp add: on_node_balanced set_lp_value_def)
next
  case (SetIsInteger p b)
  with assms(1) show ?thesis by (simp add: on_node_balanced set_is_integer_def)
next
  case (SetStatus p s)
  with assms(2) have p: "p < length (node_pool_' t)" "status_' (node_pool_' t ! p) = PENDING"
    "s = PROCESSING"
    by simp_all
  from assms(1) have "stats_ok (node_pool_' t) (stats_' t)" by (simp add: balanced_stats_ok)
  then have "stats_ok ((node_pool_' t)[p := set_status (node_pool_' t ! p) s]) (stats_' t)"
    using p(1) by (rule stats_ok_update) (simp_all add: p set_status_def)
  with assms(1) SetStatus show ?thesis by (simp add: on_node_def balanced_stats_ok)
next
  case (SetSolution p sol)
  with assms(1) show ?thesis by (simp add: on_node_balanced set_solution_def)
next
  case (SetSolutionColumns p cols)
  with assms(1) show ?thesis by (simp add: on_node_balanced set_solution_columns_def)
next
  case (AddLocalDecision p d)
  with assms(1) show ?thesis by (simp add: on_node_balanced add_local_decision_def)
qed

lemma run_calls_balanced:
  "balanced t \<Longrightarrow> run_calls follows_protocol cs t = Some t' \<Longrightarrow> balanced t'"
proof (induction cs arbitrary: t)
  case Nil
  then show ?case by simp
next
  case (Cons c cs)
  from Cons.prems(2) have ok: "follows_protocol c t"
    and run: "run_calls follows_protocol cs (call c t) = Some t'"
    by (auto split: if_splits)
  from Cons.prems(1) ok have "balanced (call c t)" by (rule call_balanced)
  then show ?case using run by (rule Cons.IH)
qed

lemma BPTree_new_balanced: "balanced (BPTree_new m)"
  by (simp add: balanced_def stats_ok_def count_where_def registry_def tree_eval node_eval)

text \<open>
  C2, as the claim states it, fails: after create_children on the root twice, three nodes
  have been created, two are pending and one is branched, and nodes_open is 1; after
  mark_processed of the root with Branched alone, one node has been created, it is
  branched, and nodes_open is still 1.
\<close>

theorem stats_balance_counterexample:
  "run_calls pointer_ok [CreateChildren 0 [variable_branch 0 (Fin 1) True],
              CreateChildren 0 [variable_branch 0 (Fin 2) False]] (BPTree_new True)
     = Some branch_twice_tree \<and>
   nodes_created (stats_' branch_twice_tree) = 3 \<and>
   nodes_open (stats_' branch_twice_tree) = 1 \<and>
   count_status branch_twice_tree PENDING = 2 \<and>
   count_status branch_twice_tree BRANCHED = 1 \<and>
   \<not> stats_balance branch_twice_tree \<and>
   run_calls pointer_ok [MarkProcessed 0 BRANCHED] (BPTree_new True) = Some mark_branched_tree \<and>
   nodes_created (stats_' mark_branched_tree) = 1 \<and>
   nodes_open (stats_' mark_branched_tree) = 1 \<and>
   count_status mark_branched_tree BRANCHED = 1 \<and>
   \<not> stats_balance mark_branched_tree"
  by (simp add: branch_twice_tree_def mark_branched_tree_def run_all_def stats_balance_def
      count_status_def call_eval tree_eval node_eval)

text \<open>
  C2, amended: in every state that a tree reaches from its construction by calls that
  keep to the order of the status (create_children on a node that is not yet terminal,
  mark_processed on a node that is not yet terminal with a terminal status other than
  Branched, and set_status only from Pending to Processing; every other call as it
  comes), nodes_open plus the numbers of nodes that are Branched, PrunedBound,
  PrunedInfeasible, Integer and Fathomed is nodes_created. A node marked Fathomed by
  mark_processed is one of these cases. The counters nodes_branched, nodes_pruned_bound,
  nodes_pruned_infeasible and nodes_integer are the numbers of nodes with these
  statuses.
\<close>

theorem stats_balance_invariant:
  "run_calls follows_protocol cs (BPTree_new minimize) = Some t \<Longrightarrow>
   stats_balance t \<and> counters_agree t"
proof -
  assume "run_calls follows_protocol cs (BPTree_new minimize) = Some t"
  with BPTree_new_balanced have "balanced t" by (rule run_calls_balanced)
  then show ?thesis by (rule balanced_stats_balance)
qed

theorem stats_balance_invariant_witness:
  "run_calls follows_protocol E3_calls (BPTree_new True) = Some (run_all E3_calls (BPTree_new True)) \<and>
   map (\<lambda>n. status_' n) (node_pool_' (run_all E3_calls (BPTree_new True))) =
     [BRANCHED, PRUNED_BOUND, FATHOMED] \<and>
   nodes_created (stats_' (run_all E3_calls (BPTree_new True))) = 3 \<and>
   nodes_open (stats_' (run_all E3_calls (BPTree_new True))) = 0 \<and>
   nodes_branched (stats_' (run_all E3_calls (BPTree_new True))) = 1 \<and>
   nodes_pruned_bound (stats_' (run_all E3_calls (BPTree_new True))) = 1 \<and>
   stats_balance (run_all E3_calls (BPTree_new True)) \<and>
   counters_agree (run_all E3_calls (BPTree_new True))"
proof -
  have r: "run_calls follows_protocol E3_calls (BPTree_new True) = Some (run_all E3_calls (BPTree_new True))"
    by (simp add: E3_calls_def run_all_def call_eval tree_eval node_eval threshold_75)
  have e: "map (\<lambda>n. status_' n) (node_pool_' (run_all E3_calls (BPTree_new True))) =
     [BRANCHED, PRUNED_BOUND, FATHOMED] \<and>
   nodes_created (stats_' (run_all E3_calls (BPTree_new True))) = 3 \<and>
   nodes_open (stats_' (run_all E3_calls (BPTree_new True))) = 0 \<and>
   nodes_branched (stats_' (run_all E3_calls (BPTree_new True))) = 1 \<and>
   nodes_pruned_bound (stats_' (run_all E3_calls (BPTree_new True))) = 1"
    by (simp add: E3_calls_def run_all_def call_eval tree_eval node_eval threshold_75)
  from stats_balance_invariant[OF r] r e show ?thesis by simp
qed

end
